theory Spec2Isabelle
  imports Main "HOL-Library.Sublist"
begin

section \<open>Python values, strings and exceptions\<close>

text \<open>
  The naming and organisation engine of FotoFiler (\<^verbatim>\<open>core/naming.py\<close> and
  \<^verbatim>\<open>core/organization.py\<close>) works on metadata dictionaries \<^verbatim>\<open>Dict[str, Any]\<close>.
  A value is observed in two ways only: through \<^verbatim>\<open>str(v)\<close> (also the result of an
  f-string field) and through its truth value. The scalar values that the JSON output of
  the metadata extractor can hold are modelled, floating-point numbers excepted.
  Strings are lists of characters; a character is a code point below 256, and strings
  with code points beyond are outside the model.

  Every \<^verbatim>\<open>raise\<close> of the two modules is a value \<open>Inl e\<close> of a sum type. The log
  is not modelled, except the warnings of \<^verbatim>\<open>generate_filename\<close>, which are returned
  with its result.
\<close>

datatype pyval = PStr string | PInt int | PBool bool | PNone

definition digit_char :: "nat \<Rightarrow> char" where
  "digit_char d = ''0123456789'' ! d"

function str_nat :: "nat \<Rightarrow> string" where
  "str_nat n = (if n < 10 then [digit_char n] else str_nat (n div 10) @ [digit_char (n mod 10)])"
  by pat_completeness auto
termination
  by (relation "measure id") auto

declare str_nat.simps [simp del]

definition str_int :: "int \<Rightarrow> string" where
  "str_int i = (if i < 0 then CHR ''-'' # str_nat (nat (- i)) else str_nat (nat i))"

fun py_str :: "pyval \<Rightarrow> string" where
  "py_str (PStr s) = s"
| "py_str (PInt i) = str_int i"
| "py_str (PBool b) = (if b then ''True'' else ''False'')"
| "py_str PNone = ''None''"

fun truthy :: "pyval \<Rightarrow> bool" where
  "truthy (PStr s) = (s \<noteq> [])"
| "truthy (PInt i) = (i \<noteq> 0)"
| "truthy (PBool b) = b"
| "truthy PNone = False"

type_synonym metadata = "string \<rightharpoonup> pyval"

datatype exn =
    ValueError string
  | KeyError string
  | TypeError string
  | FileNotFoundError string
  | PermissionError string
  | OSError string

text \<open>\<^verbatim>\<open>str(e)\<close>: the message of the exception; a \<^verbatim>\<open>KeyError\<close> prints its key quoted.\<close>

fun str_exn :: "exn \<Rightarrow> string" where
  "str_exn (ValueError m) = m"
| "str_exn (KeyError k) = CHR 0x27 # k @ [CHR 0x27]"
| "str_exn (TypeError m) = m"
| "str_exn (FileNotFoundError m) = m"
| "str_exn (PermissionError m) = m"
| "str_exn (OSError m) = m"

subsection \<open>String methods\<close>

text \<open>
  \<^verbatim>\<open>s.replace(old, new)\<close> replaces the non-overlapping occurrences of \<^verbatim>\<open>old\<close> from
  left to right; an empty \<^verbatim>\<open>old\<close> matches before every character and at the end.
\<close>

function str_replace :: "string \<Rightarrow> string \<Rightarrow> string \<Rightarrow> string" where
  "str_replace old new [] = (if old = [] then new else [])"
| "str_replace old new (c # cs) =
     (if old = [] then new @ c # str_replace old new cs
      else if prefix old (c # cs) then new @ str_replace old new (drop (length old) (c # cs))
      else c # str_replace old new cs)"
  by pat_completeness auto
termination
  by (relation "measure (\<lambda>(old, new, s). length s)") auto

text \<open>\<^verbatim>\<open>s.split(sep)\<close> for a one-character separator: never the empty list.\<close>

fun str_split :: "char \<Rightarrow> string \<Rightarrow> string list" where
  "str_split sep [] = [[]]"
| "str_split sep (c # cs) =
     (if c = sep then [] # str_split sep cs
      else (case str_split sep cs of
              [] \<Rightarrow> [[c]]
            | x # xs \<Rightarrow> (c # x) # xs))"

text \<open>\<^verbatim>\<open>sep.join(parts)\<close>.\<close>

fun str_join :: "string \<Rightarrow> string list \<Rightarrow> string" where
  "str_join sep [] = []"
| "str_join sep [x] = x"
| "str_join sep (x # y # ys) = x @ sep @ str_join sep (y # ys)"

text \<open>\<^verbatim>\<open>s.lstrip(c)\<close>, \<^verbatim>\<open>s.rstrip(c)\<close> and \<^verbatim>\<open>s.strip(c)\<close> for a single character.\<close>

fun lstrip :: "char \<Rightarrow> string \<Rightarrow> string" where
  "lstrip c [] = []"
| "lstrip c (x # xs) = (if x = c then lstrip c xs else x # xs)"

definition rstrip :: "char \<Rightarrow> string \<Rightarrow> string" where
  "rstrip c s = rev (lstrip c (rev s))"

definition strip :: "char \<Rightarrow> string \<Rightarrow> string" where
  "strip c s = rstrip c (lstrip c s)"

lemma length_lstrip: "length (lstrip c s) \<le> length s"
  by (induction s) auto

text \<open>\<^verbatim>\<open>s.rfind(c)\<close>: the index of the last occurrence, or \<open>-1\<close>.\<close>

definition rfind :: "char \<Rightarrow> string \<Rightarrow> int" where
  "rfind c s =
     (case filter (\<lambda>i. s ! i = c) [0..<length s] of
        [] \<Rightarrow> - 1
      | i # is \<Rightarrow> int (last (i # is)))"

section \<open>Regular expressions of the naming engine\<close>

text \<open>
  \<^verbatim>\<open>re.match\<close> on a pattern anchored with \<^verbatim>\<open>^\<close> and \<^verbatim>\<open>$\<close> succeeds exactly when the
  backtracking search finds some way to match, so it decides membership in the language
  of the expression. The expression is kept as data and matched by derivatives.
\<close>

datatype regex =
    Never
  | Epsilon
  | Class "char \<Rightarrow> bool"
  | Cat regex regex
  | Alt regex regex
  | Star regex

fun nullable :: "regex \<Rightarrow> bool" where
  "nullable Never = False"
| "nullable Epsilon = True"
| "nullable (Class P) = False"
| "nullable (Cat r s) = (nullable r \<and> nullable s)"
| "nullable (Alt r s) = (nullable r \<or> nullable s)"
| "nullable (Star r) = True"

fun deriv :: "char \<Rightarrow> regex \<Rightarrow> regex" where
  "deriv c Never = Never"
| "deriv c Epsilon = Never"
| "deriv c (Class P) = (if P c then Epsilon else Never)"
| "deriv c (Cat r s) =
     (if nullable r then Alt (Cat (deriv c r) s) (deriv c s) else Cat (deriv c r) s)"
| "deriv c (Alt r s) = Alt (deriv c r) (deriv c s)"
| "deriv c (Star r) = Cat (deriv c r) (Star r)"

fun matches :: "regex \<Rightarrow> string \<Rightarrow> bool" where
  "matches r [] = nullable r"
| "matches r (c # cs) = matches (deriv c r) cs"

text \<open>\<^verbatim>\<open>r+\<close> is \<^verbatim>\<open>rr*\<close>.\<close>

definition OneOrMore :: "regex \<Rightarrow> regex" where
  "OneOrMore r = Cat r (Star r)"

text \<open>
  \<^verbatim>\<open>re.match(r'^R$', s)\<close>: \<^verbatim>\<open>$\<close> matches at the end of the string and also just
  before a newline that ends the string.
\<close>

definition re_match_anchored :: "regex \<Rightarrow> string \<Rightarrow> bool" where
  "re_match_anchored r s =
     (matches r s \<or> (s \<noteq> [] \<and> last s = CHR 0x0A \<and> matches r (butlast s)))"

definition is_brace :: "char \<Rightarrow> bool" where
  "is_brace c = (c = CHR ''{'' \<or> c = CHR ''}'')"

text \<open>
  \<^verbatim>\<open>\w\<close> in a pattern on \<^verbatim>\<open>str\<close> is the Unicode class of word characters: the
  underscore and every character that is alphabetic, decimal, a digit or numeric. On the
  code points below 256 these are the ASCII letters and digits, the underscore, the
  ordinal indicators U+00AA and U+00BA, the superscripts U+00B2, U+00B3 and U+00B9, the
  micro sign U+00B5, the fractions U+00BC to U+00BE, and the letters U+00C0 to U+00FF
  without the multiplication sign U+00D7 and the division sign U+00F7.
\<close>

definition is_word :: "char \<Rightarrow> bool" where
  "is_word c =
     (let n = (of_char c :: nat)
      in (48 \<le> n \<and> n \<le> 57) \<or> (65 \<le> n \<and> n \<le> 90) \<or> n = 95 \<or> (97 \<le> n \<and> n \<le> 122)
         \<or> n = 170 \<or> (178 \<le> n \<and> n \<le> 179) \<or> n = 181 \<or> (185 \<le> n \<and> n \<le> 186)
         \<or> (188 \<le> n \<and> n \<le> 190) \<or> (192 \<le> n \<and> n \<le> 214) \<or> (216 \<le> n \<and> n \<le> 246)
         \<or> (248 \<le> n \<and> n \<le> 255))"

text \<open>The expression \<^verbatim>\<open>^[^{}]*({\w+}[^{}]*)*$\<close> of \<^verbatim>\<open>_validate_pattern\<close>.\<close>

definition pattern_regex :: regex where
  "pattern_regex =
     Cat (Star (Class (\<lambda>c. \<not> is_brace c)))
         (Star (Cat (Class (\<lambda>c. c = CHR ''{''))
               (Cat (OneOrMore (Class is_word))
               (Cat (Class (\<lambda>c. c = CHR ''}''))
                    (Star (Class (\<lambda>c. \<not> is_brace c)))))))"

text \<open>
  \<^verbatim>\<open>re.findall(r'{([^{}]+)}', s)\<close>: the scan goes from left to right; at an opening
  brace the greedy class takes the whole run of characters that are not braces, which
  must be non-empty and followed by a closing brace (a shorter run is followed by a
  character of the class, never by the brace, so backtracking cannot succeed). After a
  match the scan resumes behind the closing brace, otherwise at the next character.
\<close>

function findall_placeholders :: "string \<Rightarrow> string list" where
  "findall_placeholders [] = []"
| "findall_placeholders (c # cs) =
     (let name = takeWhile (\<lambda>d. \<not> is_brace d) cs;
          rest = dropWhile (\<lambda>d. \<not> is_brace d) cs
      in if c = CHR ''{'' \<and> name \<noteq> [] \<and> rest \<noteq> [] \<and> hd rest = CHR ''}''
         then name # findall_placeholders (tl rest)
         else findall_placeholders cs)"
  by pat_completeness auto
termination
proof (relation "measure length")
  show "wf (measure length)" by simp
next
  fix c :: char and cs name rest :: string
  assume "rest = dropWhile (\<lambda>d. \<not> is_brace d) cs"
  then have "length rest \<le> length cs"
    by (simp only: length_dropWhile_le)
  then have "length (tl rest) \<le> length cs"
    by simp
  then show "(tl rest, c # cs) \<in> measure length" by simp
next
  fix c :: char and cs :: string
  show "(cs, c # cs) \<in> measure length" by simp
qed

section \<open>The naming engine (\<^verbatim>\<open>core/naming.py\<close>)\<close>

record naming_engine =
  pattern :: string

definition DEFAULT_PATTERN :: string where
  "DEFAULT_PATTERN = ''{datetime}_{original_filename}''"

definition validate_pattern :: "string \<Rightarrow> exn + unit" where
  "validate_pattern pat =
     (if pat = [] then Inl (ValueError ''Naming pattern cannot be empty'')
      else if count_list pat (CHR ''{'') \<noteq> count_list pat (CHR ''}'')
        then Inl (ValueError ''Naming pattern has unbalanced braces'')
      else if \<not> re_match_anchored pattern_regex pat
        then Inl (ValueError ''Naming pattern has invalid placeholder format'')
      else Inr ())"

text \<open>
  \<^verbatim>\<open>NamingEngine.__init__\<close>: \<^verbatim>\<open>pattern or DEFAULT_PATTERN\<close> takes the default for
  \<^verbatim>\<open>None\<close> and for the empty string; the validation may raise.
\<close>

definition NamingEngine_init :: "string option \<Rightarrow> exn + naming_engine" where
  "NamingEngine_init pat =
     (let p = (case pat of None \<Rightarrow> DEFAULT_PATTERN
                         | Some s \<Rightarrow> if s = [] then DEFAULT_PATTERN else s)
      in case validate_pattern p of
           Inl e \<Rightarrow> Inl e
         | Inr _ \<Rightarrow> Inr \<lparr>pattern = p\<rparr>)"

text \<open>The text \<^verbatim>\<open>f"{{{placeholder}}}"\<close>: the name between braces.\<close>

definition braced :: "string \<Rightarrow> string" where
  "braced name = CHR ''{'' # name @ [CHR ''}'']"

text \<open>
  Lines 77 to 82 of \<^verbatim>\<open>generate_filename\<close>: the value substituted for a placeholder,
  and whether the warning is logged.
\<close>

definition name_value :: "metadata \<Rightarrow> string \<Rightarrow> string \<times> bool" where
  "name_value md placeholder =
     (case md placeholder of
        None \<Rightarrow> ([], True)
      | Some v \<Rightarrow> if py_str v = [] then ([], True) else (py_str v, False))"

text \<open>
  The loop of lines 76 to 85, over the placeholders found in the pattern; the state is
  the file name under construction and the placeholders warned about, in order.
\<close>

fun substitute_names :: "metadata \<Rightarrow> string list \<Rightarrow> string \<times> string list \<Rightarrow> string \<times> string list" where
  "substitute_names md [] st = st"
| "substitute_names md (placeholder # rest) (new_filename, warnings) =
     (let (v, warned) = name_value md placeholder
      in substitute_names md rest
           (str_replace (braced placeholder) v new_filename,
            if warned then warnings @ [placeholder] else warnings))"

definition invalid_chars :: "char list" where
  "invalid_chars =
     [CHR ''<'', CHR ''>'', CHR '':'', CHR 0x22, CHR ''/'', CHR 0x5C, CHR ''|'', CHR ''?'', CHR ''*'']"

text \<open>\<^verbatim>\<open>re.sub(r'[<>:"/\\|?*]', '_', filename)\<close>.\<close>

definition sub_invalid :: "string \<Rightarrow> string" where
  "sub_invalid s = map (\<lambda>c. if c \<in> set invalid_chars then CHR ''_'' else c) s"

text \<open>\<^verbatim>\<open>re.sub(r'_+', '_', s)\<close>: every maximal run of underscores becomes one.\<close>

function sub_underscores :: "string \<Rightarrow> string" where
  "sub_underscores [] = []"
| "sub_underscores (c # cs) =
     (if c = CHR ''_'' then CHR ''_'' # sub_underscores (lstrip (CHR ''_'') cs)
      else c # sub_underscores cs)"
  by pat_completeness auto
termination
  by (relation "measure length") (auto simp: length_lstrip less_Suc_eq_le)

definition clean_filename :: "string \<Rightarrow> string" where
  "clean_filename filename =
     (let clean_name = sub_invalid filename;
          clean_name = sub_underscores clean_name;
          clean_name = strip (CHR ''_'') clean_name
      in if clean_name = [] then ''unnamed_file'' else clean_name)"

text \<open>
  \<^verbatim>\<open>generate_filename\<close>, with the warnings it logs. No statement of it raises.
\<close>

definition generate_filename_run :: "naming_engine \<Rightarrow> metadata \<Rightarrow> string \<times> string list" where
  "generate_filename_run eng md =
     (let placeholders = findall_placeholders (pattern eng);
          (new_filename, warnings) = substitute_names md placeholders (pattern eng, []);
          new_filename = clean_filename new_filename;
          new_filename =
            (case md ''extension'' of
               None \<Rightarrow> new_filename
             | Some e \<Rightarrow> if truthy e then new_filename @ ''.'' @ py_str e else new_filename)
      in (new_filename, warnings))"

definition generate_filename :: "naming_engine \<Rightarrow> metadata \<Rightarrow> string" where
  "generate_filename eng md = fst (generate_filename_run eng md)"

section \<open>Path functions (\<^verbatim>\<open>os.path\<close> on POSIX)\<close>

definition isabs :: "string \<Rightarrow> bool" where
  "isabs p = (p \<noteq> [] \<and> hd p = CHR ''/'')"

text \<open>\<^verbatim>\<open>os.path.join(a, b)\<close>: an absolute second component replaces the first.\<close>

definition path_join :: "string \<Rightarrow> string \<Rightarrow> string" where
  "path_join a b =
     (if isabs b then b
      else if a = [] \<or> last a = CHR ''/'' then a @ b
      else a @ ''/'' @ b)"

text \<open>\<^verbatim>\<open>os.path.basename(p)\<close>: what follows the last slash.\<close>

definition basename :: "string \<Rightarrow> string" where
  "basename p = rev (takeWhile (\<lambda>c. c \<noteq> CHR ''/'') (rev p))"

text \<open>
  \<^verbatim>\<open>os.path.dirname(p)\<close>: what precedes the base name, without its trailing slashes
  unless it consists of slashes only.
\<close>

definition dirname :: "string \<Rightarrow> string" where
  "dirname p =
     (let head = rev (dropWhile (\<lambda>c. c \<noteq> CHR ''/'') (rev p))
      in if head \<noteq> [] \<and> \<not> list_all (\<lambda>c. c = CHR ''/'') head
         then rstrip (CHR ''/'') head else head)"

text \<open>
  \<^verbatim>\<open>os.path.splitext(p)\<close>: the extension starts at the last dot, provided that dot
  follows the last slash and some character between them is not a dot.
\<close>

definition splitext :: "string \<Rightarrow> string \<times> string" where
  "splitext p =
     (let sepIndex = rfind (CHR ''/'') p;
          dotIndex = rfind (CHR ''.'') p
      in if dotIndex > sepIndex
            \<and> list_ex (\<lambda>c. c \<noteq> CHR ''.'') (drop (nat (sepIndex + 1)) (take (nat dotIndex) p))
         then (take (nat dotIndex) p, drop (nat dotIndex) p)
         else (p, []))"

text \<open>The loop of \<^verbatim>\<open>os.path.normpath\<close> over the components of the path.\<close>

fun norm_comps :: "bool \<Rightarrow> string list \<Rightarrow> string list \<Rightarrow> string list" where
  "norm_comps initial_slashes [] new_comps = new_comps"
| "norm_comps initial_slashes (part # comps) new_comps =
     (if part = [] \<or> part = ''.'' then norm_comps initial_slashes comps new_comps
      else if part \<noteq> ''..'' \<or> (\<not> initial_slashes \<and> new_comps = [])
              \<or> (new_comps \<noteq> [] \<and> last new_comps = ''..'')
        then norm_comps initial_slashes comps (new_comps @ [part])
      else if new_comps \<noteq> [] then norm_comps initial_slashes comps (butlast new_comps)
      else norm_comps initial_slashes comps new_comps)"

definition normpath :: "string \<Rightarrow> string" where
  "normpath path =
     (if path = [] then ''.''
      else
        let initial_slashes =
              (if isabs path
               then (if take 2 path = ''//'' \<and> take 3 path \<noteq> ''///'' then 2 else 1)
               else (0::nat));
            comps = norm_comps (initial_slashes \<noteq> 0) (str_split (CHR ''/'') path) [];
            path = replicate initial_slashes (CHR ''/'') @ str_join ''/'' comps
        in if path = [] then ''.'' else path)"

text \<open>
  \<^verbatim>\<open>os.path.abspath(path)\<close>; the current working directory \<^verbatim>\<open>os.getcwd()\<close> is a
  parameter.
\<close>

definition abspath :: "string \<Rightarrow> string \<Rightarrow> string" where
  "abspath cwd path = normpath (if isabs path then path else path_join cwd path)"

section \<open>The organisation engine (\<^verbatim>\<open>core/organization.py\<close>)\<close>

definition HIERARCHY_TEMPLATES :: "(string \<times> string) list" where
  "HIERARCHY_TEMPLATES =
     [(''flat'', ''''),
      (''date'', ''{year}/{month}/{day}''),
      (''year_month'', ''{year}/{month}''),
      (''year'', ''{year}''),
      (''camera'', ''{camera}''),
      (''camera_date'', ''{camera}/{year}/{month}/{day}''),
      (''year_camera'', ''{year}/{camera}'')]"

record organization_engine =
  destination :: string
  hierarchy_pattern :: string

text \<open>\<^verbatim>\<open>OrganizationEngine.__init__\<close>, in the working directory \<open>cwd\<close>.\<close>

definition OrganizationEngine_init :: "string \<Rightarrow> string \<Rightarrow> string option \<Rightarrow> organization_engine" where
  "OrganizationEngine_init cwd dest hierarchy =
     \<lparr>destination = abspath cwd dest,
      hierarchy_pattern =
        (case hierarchy of
           None \<Rightarrow> []
         | Some h \<Rightarrow>
             if h = ''flat'' then []
             else (case map_of HIERARCHY_TEMPLATES h of
                     Some t \<Rightarrow> t
                   | None \<Rightarrow> h))\<rparr>"

text \<open>Lines 94 to 100: the text put in place of a placeholder of a segment.\<close>

definition dir_value :: "metadata \<Rightarrow> string \<Rightarrow> string" where
  "dir_value md placeholder =
     (case md placeholder of
        None \<Rightarrow> ''unknown''
      | Some v \<Rightarrow> if truthy v then py_str v else ''unknown'')"

text \<open>The loop of lines 93 to 100 over the placeholders of one segment.\<close>

fun substitute_segment :: "metadata \<Rightarrow> string list \<Rightarrow> string \<Rightarrow> string" where
  "substitute_segment md [] segment_value = segment_value"
| "substitute_segment md (placeholder # rest) segment_value =
     substitute_segment md rest
       (str_replace (braced placeholder) (dir_value md placeholder) segment_value)"

text \<open>The loop of lines 82 to 103 over the segments of the hierarchy pattern.\<close>

fun add_segments :: "metadata \<Rightarrow> string list \<Rightarrow> string \<Rightarrow> string" where
  "add_segments md [] dest_path = dest_path"
| "add_segments md (segment # rest) dest_path =
     (if segment = [] then add_segments md rest dest_path
      else add_segments md rest
             (path_join dest_path
                (substitute_segment md (findall_placeholders segment) segment)))"

definition determine_destination_path :: "organization_engine \<Rightarrow> metadata \<Rightarrow> string" where
  "determine_destination_path eng md =
     (if hierarchy_pattern eng = [] then destination eng
      else add_segments md (str_split (CHR ''/'') (hierarchy_pattern eng)) (destination eng))"

subsection \<open>The file system\<close>

text \<open>
  The engine reaches the file system through five library calls. They are parameters of
  the model: a state of the file system \<open>'fs\<close>, two queries and three operations that
  return the new state and the exception raised, if any. \<^verbatim>\<open>os.path.exists\<close> answers
  for every string; \<^verbatim>\<open>os.path.isfile\<close> is also given what \<^verbatim>\<open>metadata['file_path']\<close>
  holds when that is not a string, and may raise. The calls made are recorded, in order,
  beside the state.
\<close>

record 'fs os_api =
  path_exists :: "'fs \<Rightarrow> string \<Rightarrow> bool"
  path_isfile :: "'fs \<Rightarrow> pyval \<Rightarrow> exn + bool"
  makedirs :: "'fs \<Rightarrow> string \<Rightarrow> exn option \<times> 'fs"
  shutil_move :: "'fs \<Rightarrow> pyval \<Rightarrow> string \<Rightarrow> exn option \<times> 'fs"
  shutil_copy2 :: "'fs \<Rightarrow> pyval \<Rightarrow> string \<Rightarrow> exn option \<times> 'fs"

datatype fs_call =
    CallExists string
  | CallIsFile pyval
  | CallMakedirs string
  | CallMove pyval string
  | CallCopy2 pyval string

record 'fs world =
  filesystem :: 'fs
  calls :: "fs_call list"

definition os_path_exists :: "'fs os_api \<Rightarrow> string \<Rightarrow> 'fs world \<Rightarrow> bool \<times> 'fs world" where
  "os_path_exists os p w =
     (path_exists os (filesystem w) p, w\<lparr>calls := calls w @ [CallExists p]\<rparr>)"

definition os_path_isfile :: "'fs os_api \<Rightarrow> pyval \<Rightarrow> 'fs world \<Rightarrow> (exn + bool) \<times> 'fs world" where
  "os_path_isfile os p w =
     (path_isfile os (filesystem w) p, w\<lparr>calls := calls w @ [CallIsFile p]\<rparr>)"

definition os_makedirs :: "'fs os_api \<Rightarrow> string \<Rightarrow> 'fs world \<Rightarrow> exn option \<times> 'fs world" where
  "os_makedirs os p w =
     (let (err, fs') = makedirs os (filesystem w) p
      in (err, \<lparr>filesystem = fs', calls = calls w @ [CallMakedirs p]\<rparr>))"

definition do_move :: "'fs os_api \<Rightarrow> pyval \<Rightarrow> string \<Rightarrow> 'fs world \<Rightarrow> exn option \<times> 'fs world" where
  "do_move os src dst w =
     (let (err, fs') = shutil_move os (filesystem w) src dst
      in (err, \<lparr>filesystem = fs', calls = calls w @ [CallMove src dst]\<rparr>))"

definition do_copy2 :: "'fs os_api \<Rightarrow> pyval \<Rightarrow> string \<Rightarrow> 'fs world \<Rightarrow> exn option \<times> 'fs world" where
  "do_copy2 os src dst w =
     (let (err, fs') = shutil_copy2 os (filesystem w) src dst
      in (err, \<lparr>filesystem = fs', calls = calls w @ [CallCopy2 src dst]\<rparr>))"

subsection \<open>\<^verbatim>\<open>NamingEngine.handle_duplicates\<close>\<close>

text \<open>
  The \<^verbatim>\<open>while\<close> loop of lines 142 to 145. It has no bound: a run that never leaves the
  loop is the value \<open>None\<close>. The counter starts at 1 and only grows, so it is a natural
  number.
\<close>

partial_function (option) duplicates_loop ::
  "'fs os_api \<Rightarrow> string \<Rightarrow> string \<Rightarrow> string \<Rightarrow> nat \<Rightarrow> string \<Rightarrow> 'fs world \<Rightarrow> (string \<times> 'fs world) option"
where
  "duplicates_loop os directory name ext counter new_filepath w =
     (let (found, w1) = os_path_exists os new_filepath w
      in if found
         then duplicates_loop os directory name ext (counter + 1)
                (path_join directory (name @ ''_'' @ str_nat counter @ ext)) w1
         else Some (new_filepath, w1))"

declare duplicates_loop.simps [code]

definition handle_duplicates :: "'fs os_api \<Rightarrow> string \<Rightarrow> 'fs world \<Rightarrow> (string \<times> 'fs world) option" where
  "handle_duplicates os filepath w =
     (let (found, w1) = os_path_exists os filepath w
      in if \<not> found then Some (filepath, w1)
         else
           let directory = dirname filepath;
               filename = basename filepath;
               (name, ext) = splitext filename
           in duplicates_loop os directory name ext 1 filepath w1)"

subsection \<open>\<^verbatim>\<open>organize_file\<close> and \<^verbatim>\<open>organize_files\<close>\<close>

definition ensure_directory_exists :: "'fs os_api \<Rightarrow> string \<Rightarrow> 'fs world \<Rightarrow> exn option \<times> 'fs world" where
  "ensure_directory_exists os directory w =
     (let (found, w1) = os_path_exists os directory w
      in if \<not> found then os_makedirs os directory w1 else (None, w1))"

text \<open>
  The result of \<^verbatim>\<open>organize_file\<close> is the exception raised or the pair returned, with
  the world it leaves; \<open>None\<close> when the duplicate loop does not end. The duplicate check
  goes through a fresh \<^verbatim>\<open>NamingEngine()\<close>, whose constructor validates the default
  pattern.
\<close>

definition organize_file ::
  "'fs os_api \<Rightarrow> organization_engine \<Rightarrow> pyval \<Rightarrow> metadata \<Rightarrow> string \<Rightarrow> bool \<Rightarrow> bool \<Rightarrow> 'fs world
     \<Rightarrow> ((exn + pyval \<times> string) \<times> 'fs world) option" where
  "organize_file os eng source_path md new_filename dry_run move w =
     (case os_path_isfile os source_path w of
        (Inl e, w1) \<Rightarrow> Some (Inl e, w1)
      | (Inr False, w1) \<Rightarrow>
          Some (Inl (FileNotFoundError (''Source file not found: '' @ py_str source_path)), w1)
      | (Inr True, w1) \<Rightarrow>
          (let dest_dir = determine_destination_path eng md;
               dest_path = path_join dest_dir new_filename
           in case NamingEngine_init None of
                Inl e \<Rightarrow> Some (Inl e, w1)
              | Inr naming \<Rightarrow>
                  (case handle_duplicates os dest_path w1 of
                     None \<Rightarrow> None
                   | Some (dest_path, w2) \<Rightarrow>
                       if dry_run then Some (Inr (source_path, dest_path), w2)
                       else
                         (case ensure_directory_exists os dest_dir w2 of
                            (Some e, w3) \<Rightarrow> Some (Inl e, w3)
                          | (None, w3) \<Rightarrow>
                              (case (if move then do_move os source_path dest_path w3
                                     else do_copy2 os source_path dest_path w3) of
                                 (Some e, w4) \<Rightarrow> Some (Inl e, w4)
                               | (None, w4) \<Rightarrow> Some (Inr (source_path, dest_path), w4))))))"

text \<open>
  The loop of \<^verbatim>\<open>organize_files\<close> over the zipped lists. The lookup of
  \<^verbatim>\<open>metadata['file_path']\<close> stands before the \<^verbatim>\<open>try\<close>: its \<^verbatim>\<open>KeyError\<close> leaves the
  loop. Every exception of \<^verbatim>\<open>organize_file\<close> is caught and recorded.
\<close>

fun files_loop ::
  "'fs os_api \<Rightarrow> organization_engine \<Rightarrow> bool \<Rightarrow> bool \<Rightarrow> (metadata \<times> string) list
     \<Rightarrow> (pyval \<times> string) list \<Rightarrow> 'fs world
     \<Rightarrow> ((exn + (pyval \<times> string) list) \<times> 'fs world) option" where
  "files_loop os eng dry_run move [] results w = Some (Inr results, w)"
| "files_loop os eng dry_run move ((md, new_filename) # rest) results w =
     (case md ''file_path'' of
        None \<Rightarrow> Some (Inl (KeyError ''file_path''), w)
      | Some source_path \<Rightarrow>
          (case organize_file os eng source_path md new_filename dry_run move w of
             None \<Rightarrow> None
           | Some (Inr result, w1) \<Rightarrow>
               files_loop os eng dry_run move rest (results @ [result]) w1
           | Some (Inl e, w1) \<Rightarrow>
               files_loop os eng dry_run move rest (results @ [(source_path, str_exn e)]) w1))"

definition organize_files ::
  "'fs os_api \<Rightarrow> organization_engine \<Rightarrow> metadata list \<Rightarrow> string list \<Rightarrow> bool \<Rightarrow> bool \<Rightarrow> 'fs world
     \<Rightarrow> ((exn + (pyval \<times> string) list) \<times> 'fs world) option" where
  "organize_files os eng files_metadata new_filenames dry_run move w =
     (if length files_metadata \<noteq> length new_filenames
      then Some (Inl (ValueError ''Length of files_metadata and new_filenames must match''), w)
      else files_loop os eng dry_run move (zip files_metadata new_filenames) [] w)"

subsection \<open>A small file system for the examples\<close>

text \<open>
  An instance of the five library calls: the files and the directories that exist, and
  the directories in which nothing may be created. It serves in the examples only.
\<close>

record simple_fs =
  files :: "string list"
  dirs :: "string list"
  denied :: "string list"

definition simple_write :: "simple_fs \<Rightarrow> pyval \<Rightarrow> string \<Rightarrow> bool \<Rightarrow> exn option \<times> simple_fs" where
  "simple_write fs src dst unlink =
     (case src of
        PStr s \<Rightarrow>
          if dirname dst \<in> set (denied fs)
          then (Some (PermissionError (''Permission denied: '' @ dst)), fs)
          else (None, fs\<lparr>files := dst # (if unlink then removeAll s (files fs) else files fs)\<rparr>)
      | _ \<Rightarrow> (Some (TypeError ''path should be a string''), fs))"

definition simple_os :: "simple_fs os_api" where
  "simple_os =
     \<lparr>path_exists = (\<lambda>fs p. p \<in> set (files fs) \<or> p \<in> set (dirs fs)),
      path_isfile = (\<lambda>fs p. case p of PStr s \<Rightarrow> Inr (s \<in> set (files fs))
                                     | PNone \<Rightarrow> Inl (TypeError ''path should be a string'')
                                     | _ \<Rightarrow> Inr False),
      makedirs = (\<lambda>fs p. if p \<in> set (denied fs)
                          then (Some (PermissionError (''Permission denied: '' @ p)), fs)
                          else (None, fs\<lparr>dirs := p # dirs fs\<rparr>)),
      shutil_move = (\<lambda>fs src dst. simple_write fs src dst True),
      shutil_copy2 = (\<lambda>fs src dst. simple_write fs src dst False)\<rparr>"

section \<open>Reference definitions for names and templates\<close>

text \<open>A string has no run when no two underscores are adjacent in it.\<close>

fun no_run :: "string \<Rightarrow> bool" where
  "no_run (c # d # cs) = (\<not> (c = CHR ''_'' \<and> d = CHR ''_'') \<and> no_run (d # cs))"
| "no_run _ = True"

text \<open>
  A template read in a single pass, as the specification describes it: literal text
  without braces, interleaved with placeholders \<^verbatim>\<open>{name}\<close>. The scanner is outside a
  placeholder, just behind an opening brace, or inside a name; \<open>ok\<close> tells which
  characters a name may hold.
\<close>

datatype scan_state = Outside | AfterOpen | InName

fun scan_pattern :: "(char \<Rightarrow> bool) \<Rightarrow> scan_state \<Rightarrow> string \<Rightarrow> bool" where
  "scan_pattern ok st [] = (st = Outside)"
| "scan_pattern ok Outside (c # cs) =
     (if c = CHR ''{'' then scan_pattern ok AfterOpen cs
      else if c = CHR ''}'' then False
      else scan_pattern ok Outside cs)"
| "scan_pattern ok AfterOpen (c # cs) =
     (if ok c \<and> \<not> is_brace c then scan_pattern ok InName cs else False)"
| "scan_pattern ok InName (c # cs) =
     (if ok c \<and> \<not> is_brace c then scan_pattern ok InName cs
      else if c = CHR ''}'' then scan_pattern ok Outside cs
      else False)"

text \<open>
  The template of the specification's words: not empty, braces balanced, every
  placeholder name non-empty and free of braces.
\<close>

definition spec_valid_template :: "string \<Rightarrow> bool" where
  "spec_valid_template pat = (pat \<noteq> [] \<and> scan_pattern (\<lambda>c. True) Outside pat)"

text \<open>The same, with names made of word characters: the templates the code accepts.\<close>

definition word_template :: "string \<Rightarrow> bool" where
  "word_template pat = (pat \<noteq> [] \<and> scan_pattern is_word Outside pat)"

text \<open>
  The token list of a template and its single-pass rendering: every placeholder token is
  replaced by the value of its attribute, literal text is copied, and nothing that was
  put in is read again.
\<close>

datatype token = Literal string | Placeholder string

function tokenize :: "string \<Rightarrow> token list" where
  "tokenize [] = []"
| "tokenize (c # cs) =
     (let name = takeWhile (\<lambda>d. \<not> is_brace d) cs;
          rest = dropWhile (\<lambda>d. \<not> is_brace d) cs
      in if c = CHR ''{'' \<and> name \<noteq> [] \<and> rest \<noteq> [] \<and> hd rest = CHR ''}''
         then Placeholder name # tokenize (tl rest)
         else Literal [c] # tokenize cs)"
  by pat_completeness auto
termination
proof (relation "measure length")
  show "wf (measure length)" by simp
next
  fix c :: char and cs name rest :: string
  assume "rest = dropWhile (\<lambda>d. \<not> is_brace d) cs"
  then have "length rest \<le> length cs"
    by (simp only: length_dropWhile_le)
  then have "length (tl rest) \<le> length cs"
    by simp
  then show "(tl rest, c # cs) \<in> measure length" by simp
next
  fix c :: char and cs :: string
  show "(cs, c # cs) \<in> measure length" by simp
qed

fun token_text :: "token \<Rightarrow> string" where
  "token_text (Literal l) = l"
| "token_text (Placeholder name) = braced name"

definition unparse :: "token list \<Rightarrow> string" where
  "unparse ts = concat (map token_text ts)"

fun render_token :: "metadata \<Rightarrow> token \<Rightarrow> string" where
  "render_token md (Literal l) = l"
| "render_token md (Placeholder name) = fst (name_value md name)"

definition render_single_pass :: "metadata \<Rightarrow> string \<Rightarrow> string" where
  "render_single_pass md pat = concat (map (render_token md) (tokenize pat))"

text \<open>The file name that the single-pass rendering gives, cleaned and extended alike.\<close>

definition single_pass_filename :: "naming_engine \<Rightarrow> metadata \<Rightarrow> string" where
  "single_pass_filename eng md =
     (let new_filename = clean_filename (render_single_pass md (pattern eng))
      in case md ''extension'' of
           None \<Rightarrow> new_filename
         | Some e \<Rightarrow> if truthy e then new_filename @ ''.'' @ py_str e else new_filename)"

fun placeholder_names :: "token list \<Rightarrow> string list" where
  "placeholder_names [] = []"
| "placeholder_names (Literal l # ts) = placeholder_names ts"
| "placeholder_names (Placeholder name # ts) = name # placeholder_names ts"

text \<open>
  A token list in which an opening brace occurs only at the start of a placeholder, and
  every name is non-empty and free of braces.
\<close>

fun token_ok :: "token \<Rightarrow> bool" where
  "token_ok (Literal l) = (CHR ''{'' \<notin> set l)"
| "token_ok (Placeholder name) = (name \<noteq> [] \<and> list_all (\<lambda>c. \<not> is_brace c) name)"

text \<open>One replacement, seen on the tokens: the placeholders of that name become text.\<close>

definition subst_token :: "string \<Rightarrow> string \<Rightarrow> token \<Rightarrow> token" where
  "subst_token name v t = (if t = Placeholder name then Literal v else t)"

text \<open>The replacements of the loop, one after the other, seen on the tokens.\<close>

fun subst_tokens :: "metadata \<Rightarrow> string list \<Rightarrow> token list \<Rightarrow> token list" where
  "subst_tokens md [] ts = ts"
| "subst_tokens md (p # ps) ts =
     subst_tokens md ps (map (subst_token p (fst (name_value md p))) ts)"

text \<open>An attribute is missing when it is absent or its string form is empty.\<close>

definition missing :: "metadata \<Rightarrow> string \<Rightarrow> bool" where
  "missing md p = (case md p of None \<Rightarrow> True | Some v \<Rightarrow> py_str v = [])"

section \<open>Reference definitions for the file system\<close>

text \<open>
  The path probed for the counter \<open>k\<close>: the directory of the candidate joined with
  \<^verbatim>\<open>stem_k.ext\<close>, where stem and extension split the base name of the candidate.
\<close>

definition probe :: "string \<Rightarrow> nat \<Rightarrow> string" where
  "probe filepath k =
     path_join (dirname filepath)
       (fst (splitext (basename filepath)) @ ''_'' @ str_nat k
          @ snd (splitext (basename filepath)))"

text \<open>The library calls that only ask whether a path exists or is a file.\<close>

fun is_query :: "fs_call \<Rightarrow> bool" where
  "is_query (CallExists p) = True"
| "is_query (CallIsFile p) = True"
| "is_query (CallMakedirs p) = False"
| "is_query (CallMove s d) = False"
| "is_query (CallCopy2 s d) = False"

text \<open>
  From the world \<open>w\<close> to the world \<open>w'\<close> the file system is the same and the calls made
  on the way are queries.
\<close>

definition only_queries :: "'fs world \<Rightarrow> 'fs world \<Rightarrow> bool" where
  "only_queries w w' =
     (filesystem w' = filesystem w
      \<and> take (length (calls w)) (calls w') = calls w
      \<and> list_all is_query (drop (length (calls w)) (calls w')))"



subsection \<open>The parts of the validation expression\<close>

text \<open>One group \<^verbatim>\<open>{\w+}[^{}]*\<close> of the validation expression.\<close>

definition group_regex :: regex where
  "group_regex =
     Cat (Class (\<lambda>c. c = CHR ''{''))
         (Cat (OneOrMore (Class is_word))
         (Cat (Class (\<lambda>c. c = CHR ''}''))
              (Star (Class (\<lambda>c. \<not> is_brace c)))))"

text \<open>
  What remains to be read in each state of the scanner, said with the expression: the
  whole language outside a placeholder, and the rest of a name with its closing brace
  inside one.
\<close>

definition lang_out :: "string \<Rightarrow> bool" where
  "lang_out s = matches pattern_regex s"

definition lang_name :: "string \<Rightarrow> bool" where
  "lang_name s = (\<exists>n rest. s = n @ CHR ''}'' # rest \<and> list_all is_word n \<and> lang_out rest)"

definition lang_open :: "string \<Rightarrow> bool" where
  "lang_open s = (\<exists>n rest. s = n @ CHR ''}'' # rest \<and> n \<noteq> [] \<and> list_all is_word n \<and> lang_out rest)"

section \<open>Sanitisation of file names\<close>

lemma lstrip_hd: "lstrip c s = [] \<or> hd (lstrip c s) \<noteq> c"
  by (induction s) auto

lemma lstrip_suffix: "\<exists>ys. s = ys @ lstrip c s"
proof (induction s)
  case Nil show ?case by simp
next
  case (Cons a s)
  then obtain ys where ys: "s = ys @ lstrip c s" by blast
  show ?case
  proof (cases "a = c")
    case True
    from ys have "a # s = (a # ys) @ lstrip c s" by simp
    with True show ?thesis by (metis lstrip.simps(2))
  next
    case False
    then have "a # s = [] @ lstrip c (a # s)" by simp
    then show ?thesis by blast
  qed
qed

lemma set_lstrip: "set (lstrip c s) \<subseteq> set s"
  by (induction s) auto

lemma lstrip_fixed: "s = [] \<or> hd s \<noteq> c \<Longrightarrow> lstrip c s = s"
  by (cases s) auto

lemma sub_underscores_Nil_iff: "sub_underscores s = [] \<longleftrightarrow> s = []"
  by (cases s) auto

lemma hd_sub_underscores: "hd (sub_underscores s) = hd s"
  by (cases s) auto

lemma set_sub_underscores: "set (sub_underscores s) \<subseteq> set s"
proof (induction s rule: sub_underscores.induct)
  case 1 show ?case by simp
next
  case (2 c cs)
  with set_lstrip[of "CHR ''_''" cs] show ?case by auto
qed

lemma no_run_Cons:
  "no_run (c # s) \<longleftrightarrow> (s = [] \<or> \<not> (c = CHR ''_'' \<and> hd s = CHR ''_'')) \<and> no_run s"
  by (cases s) auto

lemma no_run_sub_underscores: "no_run (sub_underscores s)"
proof (induction s rule: sub_underscores.induct)
  case 1 show ?case by simp
next
  case (2 c cs)
  show ?case
  proof (cases "c = CHR ''_''")
    case True
    let ?r = "lstrip (CHR ''_'') cs"
    have "?r = [] \<or> hd ?r \<noteq> CHR ''_''" by (rule lstrip_hd)
    then have "sub_underscores ?r = [] \<or> hd (sub_underscores ?r) \<noteq> CHR ''_''"
      by (simp only: hd_sub_underscores sub_underscores_Nil_iff)
    moreover from 2 True have "no_run (sub_underscores ?r)" by simp
    ultimately have "no_run (CHR ''_'' # sub_underscores ?r)"
      by (simp only: no_run_Cons) blast
    with True show ?thesis by simp
  next
    case False
    with 2 show ?thesis by (simp add: no_run_Cons)
  qed
qed

lemma sub_underscores_fixed: "no_run s \<Longrightarrow> sub_underscores s = s"
proof (induction s rule: sub_underscores.induct)
  case 1 show ?case by simp
next
  case (2 c cs)
  show ?case
  proof (cases "c = CHR ''_''")
    case True
    with "2.prems" have h: "cs = [] \<or> hd cs \<noteq> CHR ''_''" and nr: "no_run cs"
      by (auto simp: no_run_Cons)
    from h have dw: "lstrip (CHR ''_'') cs = cs" by (rule lstrip_fixed)
    with 2 True nr show ?thesis by simp
  next
    case False
    with 2 show ?thesis by (simp add: no_run_Cons)
  qed
qed

lemma no_run_append:
  "no_run (xs @ ys) \<longleftrightarrow>
     no_run xs \<and> no_run ys \<and> (xs = [] \<or> ys = [] \<or> \<not> (last xs = CHR ''_'' \<and> hd ys = CHR ''_''))"
proof (induction xs)
  case Nil show ?case by simp
next
  case (Cons a xs)
  then show ?case by (cases xs; cases ys) (auto simp: no_run_Cons)
qed

lemma no_run_rev: "no_run (rev s) = no_run s"
proof (induction s)
  case Nil show ?case by simp
next
  case (Cons a s)
  then show ?case by (cases s) (auto simp: no_run_append no_run_Cons hd_rev)
qed

lemma no_run_lstrip: "no_run s \<Longrightarrow> no_run (lstrip c s)"
  by (induction s) (auto simp: no_run_Cons)

lemma no_run_strip: "no_run s \<Longrightarrow> no_run (strip c s)"
  by (simp add: strip_def rstrip_def no_run_rev no_run_lstrip)

lemma set_strip: "set (strip c s) \<subseteq> set s"
proof -
  have "set (strip c s) \<subseteq> set (rev (lstrip c s))"
    unfolding strip_def rstrip_def using set_lstrip[of c "rev (lstrip c s)"] by simp
  also have "\<dots> \<subseteq> set s" using set_lstrip[of c s] by simp
  finally show ?thesis .
qed

lemma strip_ends:
  assumes "strip c s \<noteq> []"
  shows "hd (strip c s) \<noteq> c" and "last (strip c s) \<noteq> c"
proof -
  let ?a = "lstrip c s"
  let ?b = "lstrip c (rev ?a)"
  have sb: "strip c s = rev ?b" by (simp only: strip_def rstrip_def)
  with assms have b: "?b \<noteq> []" by simp
  have a: "?a \<noteq> []"
  proof
    assume "?a = []"
    then have "?b = []" by simp
    with b show False by contradiction
  qed
  from b lstrip_hd[of c "rev ?a"] have "hd ?b \<noteq> c" by blast
  with b sb show "last (strip c s) \<noteq> c" by (simp add: last_rev)
  from a lstrip_hd[of c s] have ha: "hd ?a \<noteq> c" by blast
  obtain ys where ys: "rev ?a = ys @ ?b"
    using lstrip_suffix[of "rev ?a" c] by blast
  then have "rev (rev ?a) = rev (ys @ ?b)" by (rule arg_cong)
  then have "?a = rev ?b @ rev ys" by (simp only: rev_append rev_rev_ident)
  moreover from b have "rev ?b \<noteq> []" by simp
  ultimately have "hd ?a = hd (rev ?b)" by (metis hd_append2)
  with ha sb show "hd (strip c s) \<noteq> c" by simp
qed

lemma strip_fixed: "s \<noteq> [] \<Longrightarrow> hd s \<noteq> c \<Longrightarrow> last s \<noteq> c \<Longrightarrow> strip c s = s"
proof -
  assume a: "s \<noteq> []" "hd s \<noteq> c" "last s \<noteq> c"
  then have 1: "lstrip c s = s" by (simp add: lstrip_fixed)
  from a have "hd (rev s) \<noteq> c" by (simp add: hd_rev)
  then have 2: "lstrip c (rev s) = rev s" by (simp add: lstrip_fixed)
  show ?thesis by (simp add: strip_def rstrip_def 1 2)
qed

lemma sub_invalid_fixed: "set s \<inter> set invalid_chars = {} \<Longrightarrow> sub_invalid s = s"
  unfolding sub_invalid_def by (induction s) auto

lemma sub_invalid_safe: "set (sub_invalid s) \<inter> set invalid_chars = {}"
  unfolding sub_invalid_def by (auto simp: invalid_chars_def)

lemma clean_stem_props:
  fixes s :: string
  defines "r \<equiv> strip (CHR ''_'') (sub_underscores (sub_invalid s))"
  shows "set r \<inter> set invalid_chars = {}" and "no_run r"
proof -
  have "set r \<subseteq> set (sub_underscores (sub_invalid s))"
    unfolding r_def by (rule set_strip)
  also have "\<dots> \<subseteq> set (sub_invalid s)" by (rule set_sub_underscores)
  finally have "set r \<subseteq> set (sub_invalid s)" .
  with sub_invalid_safe[of s] show "set r \<inter> set invalid_chars = {}" by blast
  show "no_run r" unfolding r_def by (rule no_run_strip) (rule no_run_sub_underscores)
qed

lemma clean_filename_fixed:
  assumes "r \<noteq> []" "set r \<inter> set invalid_chars = {}" "no_run r"
    "hd r \<noteq> CHR ''_''" "last r \<noteq> CHR ''_''"
  shows "clean_filename r = r"
  using assms by (simp add: clean_filename_def sub_invalid_fixed sub_underscores_fixed strip_fixed)

lemma clean_unnamed: "clean_filename ''unnamed_file'' = ''unnamed_file''"
  by (simp add: clean_filename_def sub_invalid_def strip_def rstrip_def invalid_chars_def)

lemma clean_filename_safe: "set (clean_filename s) \<inter> set invalid_chars = {}"
proof (cases "strip (CHR ''_'') (sub_underscores (sub_invalid s)) = []")
  case True
  then have "clean_filename s = ''unnamed_file''" by (simp add: clean_filename_def)
  then show ?thesis by (simp add: invalid_chars_def)
next
  case False
  then have "clean_filename s = strip (CHR ''_'') (sub_underscores (sub_invalid s))"
    by (simp add: clean_filename_def)
  with clean_stem_props(1)[of s] show ?thesis by simp
qed

text \<open>
  Claim C9. Sanitising is idempotent: for every string \<open>s\<close>, \<^verbatim>\<open>_clean_filename\<close>
  applied to \<^verbatim>\<open>_clean_filename(s)\<close> returns it unchanged.
\<close>

theorem clean_filename_idempotent: "clean_filename (clean_filename s) = clean_filename s"
proof -
  let ?r = "strip (CHR ''_'') (sub_underscores (sub_invalid s))"
  show ?thesis
  proof (cases "?r = []")
    case True
    then have "clean_filename s = ''unnamed_file''" by (simp add: clean_filename_def)
    then show ?thesis by (simp only: clean_unnamed)
  next
    case False
    then have eq: "clean_filename s = ?r" by (simp add: clean_filename_def)
    have "clean_filename ?r = ?r"
      using False clean_stem_props[of s] strip_ends[OF False]
      by (intro clean_filename_fixed)
    with eq show ?thesis by simp
  qed
qed

theorem clean_filename_idempotent_witness:
  "clean_filename ''__a<>b__c:_'' = ''a_b_c'' \<and> clean_filename ''a_b_c'' = ''a_b_c''"
proof -
  have 1: "clean_filename ''__a<>b__c:_'' = ''a_b_c''"
    by (simp add: clean_filename_def sub_invalid_def strip_def rstrip_def invalid_chars_def)
  from clean_filename_idempotent[of "''__a<>b__c:_''"] 1 show ?thesis by simp
qed

text \<open>
  Claim C1, as amended. The name returned by \<^verbatim>\<open>generate_filename\<close> is the sanitised
  stem followed, when the \<^verbatim>\<open>extension\<close> attribute is present and true, by a dot and the
  extension as it is. Whatever the pattern and the attributes, a character among
  \<^verbatim>\<open>< > : " / \ | ? *\<close> in the returned name is a character of that extension: the
  name holds none of them when the extension is absent, empty or free of them.
\<close>

theorem generate_filename_reserved_chars:
  "set (generate_filename eng md) \<inter> set invalid_chars
     \<subseteq> (case md ''extension'' of
          None \<Rightarrow> {}
        | Some e \<Rightarrow> if truthy e then set (py_str e) else {})"
proof -
  obtain nf ws where sub:
    "substitute_names md (findall_placeholders (pattern eng)) (pattern eng, []) = (nf, ws)"
    by (cases "substitute_names md (findall_placeholders (pattern eng)) (pattern eng, [])")
  have dot: "CHR ''.'' \<notin> set invalid_chars" by (simp add: invalid_chars_def)
  show ?thesis
  proof (cases "md ''extension''")
    case None
    with sub have "generate_filename eng md = clean_filename nf"
      by (simp add: generate_filename_def generate_filename_run_def)
    with None clean_filename_safe[of nf] show ?thesis by simp
  next
    case (Some e)
    show ?thesis
    proof (cases "truthy e")
      case True
      with Some sub have "generate_filename eng md = clean_filename nf @ ''.'' @ py_str e"
        by (simp add: generate_filename_def generate_filename_run_def)
      with Some True clean_filename_safe[of nf] dot show ?thesis by auto
    next
      case False
      with Some sub have "generate_filename eng md = clean_filename nf"
        by (simp add: generate_filename_def generate_filename_run_def)
      with Some False clean_filename_safe[of nf] show ?thesis by simp
    qed
  qed
qed

theorem generate_filename_reserved_chars_witness:
  "set (generate_filename \<lparr>pattern = ''{a}_{b}''\<rparr>
          [''a'' \<mapsto> PStr ''x:y'', ''extension'' \<mapsto> PStr ''jpg''])
     \<inter> set invalid_chars = {}"
  using generate_filename_reserved_chars
          [of "\<lparr>pattern = ''{a}_{b}''\<rparr>" "[''a'' \<mapsto> PStr ''x:y'', ''extension'' \<mapsto> PStr ''jpg'']"]
  by (auto simp: invalid_chars_def)

text \<open>
  Claim C1 as stated fails: the pattern \<^verbatim>\<open>{a}\<close> is valid, and with the attributes
  \<^verbatim>\<open>{'a': 'x', 'extension': 'j/pg'}\<close> the returned name is \<^verbatim>\<open>x.j/pg\<close>, which holds a
  slash.
\<close>

theorem generate_filename_extension_counterexample:
  "NamingEngine_init (Some ''{a}'') = Inr \<lparr>pattern = ''{a}''\<rparr>
   \<and> generate_filename \<lparr>pattern = ''{a}''\<rparr> [''a'' \<mapsto> PStr ''x'', ''extension'' \<mapsto> PStr ''j/pg'']
       = ''x.j/pg''
   \<and> CHR ''/'' \<in> set (generate_filename \<lparr>pattern = ''{a}''\<rparr>
                         [''a'' \<mapsto> PStr ''x'', ''extension'' \<mapsto> PStr ''j/pg''])
                 \<inter> set invalid_chars"
proof -
  have 1: "NamingEngine_init (Some ''{a}'') = Inr \<lparr>pattern = ''{a}''\<rparr>"
    by (simp add: NamingEngine_init_def validate_pattern_def re_match_anchored_def
        pattern_regex_def OneOrMore_def is_brace_def is_word_def)
  have 2: "generate_filename \<lparr>pattern = ''{a}''\<rparr> [''a'' \<mapsto> PStr ''x'', ''extension'' \<mapsto> PStr ''j/pg'']
       = ''x.j/pg''"
    by (simp add: generate_filename_def generate_filename_run_def is_brace_def name_value_def
        braced_def clean_filename_def sub_invalid_def invalid_chars_def strip_def rstrip_def)
  show ?thesis by (simp add: 1 2 invalid_chars_def)
qed

section \<open>The batch length check\<close>

text \<open>
  Claim C10. \<^verbatim>\<open>organize_files\<close> raises \<^verbatim>\<open>ValueError\<close> when \<^verbatim>\<open>files_metadata\<close> and
  \<^verbatim>\<open>new_filenames\<close> differ in length, before any file is processed: the world it
  leaves is the one it found, with the same file system and no library call made.
\<close>

theorem organize_files_length_mismatch:
  "length files_metadata \<noteq> length new_filenames \<Longrightarrow>
   organize_files os eng files_metadata new_filenames dry_run move w
     = Some (Inl (ValueError ''Length of files_metadata and new_filenames must match''), w)"
  by (simp add: organize_files_def)

theorem organize_files_length_mismatch_witness:
  "organize_files simple_os (OrganizationEngine_init ''/home/user'' ''/photos'' None)
     [[''file_path'' \<mapsto> PStr ''/in/a.jpg''], [''file_path'' \<mapsto> PStr ''/in/b.jpg'']]
     [''a.jpg''] False True
     \<lparr>filesystem = \<lparr>files = [''/in/a.jpg'', ''/in/b.jpg''], dirs = [''/in''], denied = []\<rparr>,
      calls = []\<rparr>
   = Some (Inl (ValueError ''Length of files_metadata and new_filenames must match''),
           \<lparr>filesystem = \<lparr>files = [''/in/a.jpg'', ''/in/b.jpg''], dirs = [''/in''], denied = []\<rparr>,
            calls = []\<rparr>)"
  by (rule organize_files_length_mismatch) simp

section \<open>The flat hierarchy\<close>

lemma flat_hierarchy_pattern:
  "hierarchy = None \<or> hierarchy = Some ''flat'' \<or> hierarchy = Some [] \<Longrightarrow>
   hierarchy_pattern (OrganizationEngine_init cwd base hierarchy) = []"
  by (auto simp: OrganizationEngine_init_def HIERARCHY_TEMPLATES_def)

text \<open>
  Claim C6, as amended. The engine stores \<^verbatim>\<open>os.path.abspath(destination)\<close>. With no
  hierarchy, the empty hierarchy or the preset \<^verbatim>\<open>flat\<close>, and for every attribute map,
  \<^verbatim>\<open>determine_destination_path\<close> returns that stored path: the absolute, normalised
  form of the base directory, which is the base directory itself when it is absolute and
  already normalised.
\<close>

theorem determine_destination_path_flat:
  "hierarchy = None \<or> hierarchy = Some ''flat'' \<or> hierarchy = Some [] \<Longrightarrow>
   determine_destination_path (OrganizationEngine_init cwd base hierarchy) md = abspath cwd base
   \<and> (isabs base \<and> normpath base = base \<longrightarrow>
        determine_destination_path (OrganizationEngine_init cwd base hierarchy) md = base)"
proof -
  assume h: "hierarchy = None \<or> hierarchy = Some ''flat'' \<or> hierarchy = Some []"
  have "destination (OrganizationEngine_init cwd base hierarchy) = abspath cwd base"
    by (simp add: OrganizationEngine_init_def)
  with flat_hierarchy_pattern[OF h, of cwd base]
  have 1: "determine_destination_path (OrganizationEngine_init cwd base hierarchy) md
             = abspath cwd base"
    by (simp add: determine_destination_path_def)
  have "isabs base \<Longrightarrow> normpath base = base \<Longrightarrow> abspath cwd base = base"
    by (simp add: abspath_def)
  with 1 show ?thesis by simp
qed

theorem determine_destination_path_flat_witness:
  "determine_destination_path
     (OrganizationEngine_init ''/home/user'' ''/srv/photos'' (Some ''flat''))
     [''year'' \<mapsto> PStr ''2023'']
   = ''/srv/photos''"
proof -
  have n: "isabs ''/srv/photos'' \<and> normpath ''/srv/photos'' = ''/srv/photos''"
    by (simp add: isabs_def normpath_def)
  have "Some ''flat'' = None \<or> Some ''flat'' = Some ''flat'' \<or> Some ''flat'' = Some []"
    by simp
  from determine_destination_path_flat[OF this] n show ?thesis by blast
qed

text \<open>
  Claim C6 as stated fails for a relative base directory: in the working directory
  \<^verbatim>\<open>/home/user\<close>, the base \<^verbatim>\<open>photos\<close> with the preset \<^verbatim>\<open>flat\<close> gives
  \<^verbatim>\<open>/home/user/photos\<close>.
\<close>

theorem determine_destination_path_flat_counterexample:
  "determine_destination_path
     (OrganizationEngine_init ''/home/user'' ''photos'' (Some ''flat'')) Map.empty
   = ''/home/user/photos''
   \<and> determine_destination_path
       (OrganizationEngine_init ''/home/user'' ''photos'' (Some ''flat'')) Map.empty
     \<noteq> ''photos''"
  by (simp add: determine_destination_path_def OrganizationEngine_init_def abspath_def
      normpath_def isabs_def path_join_def)

section \<open>Validation of naming patterns\<close>

subsection \<open>Matching by derivatives\<close>

lemma matches_Never [simp]: "matches Never s = False"
  by (induction s) auto

lemma matches_Epsilon [simp]: "matches Epsilon s = (s = [])"
  by (cases s) auto

lemma matches_Class: "matches (Class P) s = (\<exists>c. s = [c] \<and> P c)"
  by (cases s) auto

lemma matches_Alt [simp]: "matches (Alt r1 r2) s = (matches r1 s \<or> matches r2 s)"
  by (induction s arbitrary: r1 r2) auto

lemma matches_Cat: "matches (Cat r1 r2) s = (\<exists>u v. s = u @ v \<and> matches r1 u \<and> matches r2 v)"
proof (induction s arbitrary: r1)
  case Nil
  show ?case by simp
next
  case (Cons c cs)
  have split: "(\<exists>u v. c # cs = u @ v \<and> matches r1 u \<and> matches r2 v) \<longleftrightarrow>
        (nullable r1 \<and> matches (deriv c r2) cs) \<or>
        (\<exists>u v. cs = u @ v \<and> matches (deriv c r1) u \<and> matches r2 v)"
    (is "?L \<longleftrightarrow> ?N \<or> ?R")
  proof
    assume ?L
    then obtain u v where uv: "c # cs = u @ v" "matches r1 u" "matches r2 v" by blast
    show "?N \<or> ?R"
    proof (cases u)
      case Nil
      with uv show ?thesis by auto
    next
      case (Cons a u')
      with uv have "cs = u' @ v" "matches (deriv c r1) u'" by auto
      with uv(3) show ?thesis by blast
    qed
  next
    assume "?N \<or> ?R"
    then show ?L
    proof
      assume ?N
      then have "c # cs = [] @ (c # cs)" "matches r1 []" "matches r2 (c # cs)" by auto
      then show ?L by blast
    next
      assume ?R
      then obtain u v where "cs = u @ v" "matches (deriv c r1) u" "matches r2 v" by blast
      then have "c # cs = (c # u) @ v" "matches r1 (c # u)" "matches r2 v" by auto
      then show ?L by blast
    qed
  qed
  show ?case
    by (simp only: split) (auto simp: Cons.IH)
qed

lemma matches_Star_Cons:
  "matches (Star r) (c # cs) = (\<exists>u v. cs = u @ v \<and> matches r (c # u) \<and> matches (Star r) v)"
  by (simp add: matches_Cat)

lemma matches_Star_Class: "matches (Star (Class P)) s = list_all P s"
proof (induction s)
  case Nil show ?case by simp
next
  case (Cons c cs)
  have "matches (Star (Class P)) (c # cs) =
          (\<exists>u v. cs = u @ v \<and> matches (Class P) (c # u) \<and> matches (Star (Class P)) v)"
    by (rule matches_Star_Cons)
  also have "\<dots> = (P c \<and> matches (Star (Class P)) cs)"
    by auto
  finally show ?case using Cons by simp
qed

lemma matches_CatI: "matches r1 u \<Longrightarrow> matches r2 v \<Longrightarrow> matches (Cat r1 r2) (u @ v)"
  unfolding matches_Cat by blast

lemma matches_CatE:
  assumes "matches (Cat r1 r2) s"
  obtains u v where "s = u @ v" "matches r1 u" "matches r2 v"
  using assms unfolding matches_Cat by blast

lemma matches_OneOrMore_Class:
  "matches (OneOrMore (Class P)) s = (s \<noteq> [] \<and> list_all P s)"
proof (cases s)
  case Nil
  then show ?thesis by (simp add: OneOrMore_def)
next
  case (Cons c cs)
  have "matches (OneOrMore (Class P)) (c # cs) = matches (Cat (if P c then Epsilon else Never) (Star (Class P))) cs"
    by (simp add: OneOrMore_def)
  also have "\<dots> = (P c \<and> matches (Star (Class P)) cs)"
    by (cases "P c") (simp_all add: matches_Cat)
  finally show ?thesis using Cons by (simp add: matches_Star_Class)
qed

lemma pattern_regex_group:
  "pattern_regex = Cat (Star (Class (\<lambda>c. \<not> is_brace c))) (Star group_regex)"
  by (simp add: pattern_regex_def group_regex_def)

lemma matches_Class_single: "matches (Class P) u \<Longrightarrow> \<exists>c. u = [c] \<and> P c"
  by (simp only: matches_Class)

lemma matches_group:
  "matches group_regex s \<longleftrightarrow>
     (\<exists>n l. s = CHR ''{'' # n @ CHR ''}'' # l \<and> n \<noteq> [] \<and> list_all is_word n
            \<and> list_all (\<lambda>c. \<not> is_brace c) l)"
  (is "?L \<longleftrightarrow> ?R")
proof
  assume ?L
  then obtain u1 v1 where 1: "s = u1 @ v1" "matches (Class (\<lambda>c. c = CHR ''{'')) u1"
    "matches (Cat (OneOrMore (Class is_word))
         (Cat (Class (\<lambda>c. c = CHR ''}'')) (Star (Class (\<lambda>c. \<not> is_brace c))))) v1"
    unfolding group_regex_def by (rule matches_CatE)
  from 1(3) obtain n v2 where 2: "v1 = n @ v2" "matches (OneOrMore (Class is_word)) n"
    "matches (Cat (Class (\<lambda>c. c = CHR ''}'')) (Star (Class (\<lambda>c. \<not> is_brace c)))) v2"
    by (rule matches_CatE)
  from 2(3) obtain u3 l where 3: "v2 = u3 @ l" "matches (Class (\<lambda>c. c = CHR ''}'')) u3"
    "matches (Star (Class (\<lambda>c. \<not> is_brace c))) l"
    by (rule matches_CatE)
  from matches_Class_single[OF 1(2)] have u1: "u1 = [CHR ''{'']" by blast
  from matches_Class_single[OF 3(2)] have u3: "u3 = [CHR ''}'']" by blast
  from 2(2) have n: "n \<noteq> [] \<and> list_all is_word n" by (simp add: matches_OneOrMore_Class)
  from 3(3) have l: "list_all (\<lambda>c. \<not> is_brace c) l" by (simp only: matches_Star_Class)
  from 1(1) 2(1) 3(1) u1 u3 have "s = CHR ''{'' # n @ CHR ''}'' # l" by simp
  with n l show ?R by blast
next
  assume ?R
  then obtain n l where s: "s = CHR ''{'' # n @ CHR ''}'' # l" and n: "n \<noteq> []" "list_all is_word n"
    and l: "list_all (\<lambda>c. \<not> is_brace c) l" by blast
  have a: "matches (Class (\<lambda>c. c = CHR ''{'')) [CHR ''{'']" by simp
  have b: "matches (OneOrMore (Class is_word)) n" using n by (simp add: matches_OneOrMore_Class)
  have c: "matches (Class (\<lambda>c. c = CHR ''}'')) [CHR ''}'']" by simp
  have d: "matches (Star (Class (\<lambda>c. \<not> is_brace c))) l" using l by (simp only: matches_Star_Class)
  have "matches group_regex ([CHR ''{''] @ n @ [CHR ''}''] @ l)"
    unfolding group_regex_def by (intro matches_CatI a b c d)
  with s show ?L by simp
qed

lemma is_word_not_brace: "is_word c \<Longrightarrow> \<not> is_brace c"
  by (auto simp: is_word_def is_brace_def)

lemma lang_out_iff:
  "lang_out s \<longleftrightarrow> (\<exists>u v. s = u @ v \<and> list_all (\<lambda>c. \<not> is_brace c) u \<and> matches (Star group_regex) v)"
  unfolding lang_out_def pattern_regex_group matches_Cat matches_Star_Class ..

lemma group_starts: "matches group_regex (c # u) \<Longrightarrow> c = CHR ''{''"
  unfolding matches_group by auto

lemma star_group_starts: "matches (Star group_regex) (c # cs) \<Longrightarrow> c = CHR ''{''"
  unfolding matches_Star_Cons using group_starts by blast

lemma lang_out_Nil: "lang_out []"
  by (simp add: lang_out_def pattern_regex_def)

lemma lang_out_plain:
  assumes "\<not> is_brace c"
  shows "lang_out (c # cs) = lang_out cs"
proof
  assume "lang_out (c # cs)"
  then obtain u v where uv: "c # cs = u @ v" "list_all (\<lambda>c. \<not> is_brace c) u"
    "matches (Star group_regex) v" unfolding lang_out_iff by blast
  show "lang_out cs"
  proof (cases u)
    case Nil
    with uv have "matches (Star group_regex) (c # cs)" by simp
    then have "c = CHR ''{''" by (rule star_group_starts)
    with assms show ?thesis by (simp add: is_brace_def)
  next
    case (Cons a u')
    with uv have "cs = u' @ v" "list_all (\<lambda>c. \<not> is_brace c) u'" by auto
    with uv(3) show ?thesis unfolding lang_out_iff by blast
  qed
next
  assume "lang_out cs"
  then obtain u v where uv: "cs = u @ v" "list_all (\<lambda>c. \<not> is_brace c) u"
    "matches (Star group_regex) v" unfolding lang_out_iff by blast
  with assms have "c # cs = (c # u) @ v" "list_all (\<lambda>c. \<not> is_brace c) (c # u)" by auto
  with uv(3) show "lang_out (c # cs)" unfolding lang_out_iff by blast
qed

lemma lang_out_close: "\<not> lang_out (CHR ''}'' # cs)"
proof
  assume "lang_out (CHR ''}'' # cs)"
  then obtain u v where uv: "CHR ''}'' # cs = u @ v" "list_all (\<lambda>c. \<not> is_brace c) u"
    "matches (Star group_regex) v" unfolding lang_out_iff by blast
  show False
  proof (cases u)
    case Nil
    with uv have "matches (Star group_regex) (CHR ''}'' # cs)" by simp
    then have "CHR ''}'' = CHR ''{''" by (rule star_group_starts)
    then show False by simp
  next
    case (Cons a u')
    with uv show False by (auto simp: is_brace_def)
  qed
qed

lemma lang_out_open: "lang_out (CHR ''{'' # cs) = lang_open cs"
proof
  assume "lang_out (CHR ''{'' # cs)"
  then obtain u v where uv: "CHR ''{'' # cs = u @ v" "list_all (\<lambda>c. \<not> is_brace c) u"
    "matches (Star group_regex) v" unfolding lang_out_iff by blast
  have "u = []"
  proof (cases u)
    case Nil then show ?thesis .
  next
    case (Cons a u')
    with uv show ?thesis by (auto simp: is_brace_def)
  qed
  with uv have "matches (Star group_regex) (CHR ''{'' # cs)" by simp
  then obtain u' v' where 1: "cs = u' @ v'" "matches group_regex (CHR ''{'' # u')"
    "matches (Star group_regex) v'" unfolding matches_Star_Cons by blast
  from 1(2) obtain n l where 2: "u' = n @ CHR ''}'' # l" "n \<noteq> []" "list_all is_word n"
    "list_all (\<lambda>c. \<not> is_brace c) l" unfolding matches_group by auto
  from 2(4) 1(3) have "lang_out (l @ v')" unfolding lang_out_iff by blast
  moreover from 1(1) 2(1) have "cs = n @ CHR ''}'' # (l @ v')" by simp
  ultimately show "lang_open cs" unfolding lang_open_def using 2(2,3) by blast
next
  assume "lang_open cs"
  then obtain n rest where 1: "cs = n @ CHR ''}'' # rest" "n \<noteq> []" "list_all is_word n"
    "lang_out rest" unfolding lang_open_def by blast
  from 1(4) obtain l v where 2: "rest = l @ v" "list_all (\<lambda>c. \<not> is_brace c) l"
    "matches (Star group_regex) v" unfolding lang_out_iff by blast
  from 1(2,3) 2(2) have "matches group_regex (CHR ''{'' # (n @ CHR ''}'' # l))"
    unfolding matches_group by blast
  moreover from 1(1) 2(1) have "cs = (n @ CHR ''}'' # l) @ v" by simp
  ultimately have "matches (Star group_regex) (CHR ''{'' # cs)"
    unfolding matches_Star_Cons using 2(3) by blast
  then have "CHR ''{'' # cs = [] @ (CHR ''{'' # cs)" "list_all (\<lambda>c. \<not> is_brace c) []"
    "matches (Star group_regex) (CHR ''{'' # cs)" by simp_all
  then show "lang_out (CHR ''{'' # cs)" unfolding lang_out_iff by blast
qed

lemma lang_open_Nil: "\<not> lang_open []"
  by (simp add: lang_open_def)

lemma lang_name_Nil: "\<not> lang_name []"
  by (simp add: lang_name_def)

lemma lang_name_Cons:
  "lang_name (c # cs) = (if is_word c then lang_name cs else c = CHR ''}'' \<and> lang_out cs)"
proof (cases "is_word c")
  case True
  then have nb: "c \<noteq> CHR ''}''" using is_word_not_brace by (auto simp: is_brace_def)
  have "lang_name (c # cs) = lang_name cs"
  proof
    assume "lang_name (c # cs)"
    then obtain n rest where 1: "c # cs = n @ CHR ''}'' # rest" "list_all is_word n" "lang_out rest"
      unfolding lang_name_def by blast
    with nb obtain n' where "n = c # n'" by (cases n) auto
    with 1 have "cs = n' @ CHR ''}'' # rest" "list_all is_word n'" by auto
    with 1(3) show "lang_name cs" unfolding lang_name_def by blast
  next
    assume "lang_name cs"
    then obtain n rest where 1: "cs = n @ CHR ''}'' # rest" "list_all is_word n" "lang_out rest"
      unfolding lang_name_def by blast
    with True have "c # cs = (c # n) @ CHR ''}'' # rest" "list_all is_word (c # n)" by auto
    with 1(3) show "lang_name (c # cs)" unfolding lang_name_def by blast
  qed
  with True show ?thesis by simp
next
  case False
  have "lang_name (c # cs) = (c = CHR ''}'' \<and> lang_out cs)"
  proof
    assume "lang_name (c # cs)"
    then obtain n rest where 1: "c # cs = n @ CHR ''}'' # rest" "list_all is_word n" "lang_out rest"
      unfolding lang_name_def by blast
    with False have "n = []" by (cases n) auto
    with 1 show "c = CHR ''}'' \<and> lang_out cs" by simp
  next
    assume "c = CHR ''}'' \<and> lang_out cs"
    then have "c # cs = [] @ CHR ''}'' # cs" "list_all is_word []" "lang_out cs" by simp_all
    then show "lang_name (c # cs)" unfolding lang_name_def by blast
  qed
  with False show ?thesis by simp
qed

lemma lang_open_Cons: "lang_open (c # cs) = (is_word c \<and> lang_name cs)"
proof
  assume "lang_open (c # cs)"
  then obtain n rest where 1: "c # cs = n @ CHR ''}'' # rest" "n \<noteq> []" "list_all is_word n"
    "lang_out rest" unfolding lang_open_def by blast
  from 1(2) obtain n' where "n = c # n'" using 1(1) by (cases n) auto
  with 1 have "is_word c" "cs = n' @ CHR ''}'' # rest" "list_all is_word n'" by auto
  with 1(4) show "is_word c \<and> lang_name cs" unfolding lang_name_def by blast
next
  assume a: "is_word c \<and> lang_name cs"
  then obtain n rest where 1: "cs = n @ CHR ''}'' # rest" "list_all is_word n" "lang_out rest"
    unfolding lang_name_def by blast
  with a have "c # cs = (c # n) @ CHR ''}'' # rest" "c # n \<noteq> []" "list_all is_word (c # n)" by auto
  with 1(3) show "lang_open (c # cs)" unfolding lang_open_def by blast
qed

lemma scan_pattern_lang:
  "scan_pattern is_word st s =
     (case st of Outside \<Rightarrow> lang_out s | AfterOpen \<Rightarrow> lang_open s | InName \<Rightarrow> lang_name s)"
proof (induction s arbitrary: st)
  case Nil
  show ?case by (cases st) (simp_all add: lang_out_Nil lang_open_Nil lang_name_Nil)
next
  case (Cons c cs)
  show ?case
  proof (cases st)
    case Outside
    show ?thesis
    proof (cases "is_brace c")
      case True
      then show ?thesis using Outside Cons[of AfterOpen]
        by (auto simp: is_brace_def lang_out_open lang_out_close)
    next
      case False
      then show ?thesis using Outside Cons[of Outside]
        by (auto simp: is_brace_def lang_out_plain)
    qed
  next
    case AfterOpen
    then show ?thesis using Cons[of InName] is_word_not_brace[of c]
      by (auto simp: lang_open_Cons)
  next
    case InName
    then show ?thesis using Cons[of InName] Cons[of Outside] is_word_not_brace[of c]
      by (auto simp: lang_name_Cons)
  qed
qed

lemma matches_pattern_regex: "matches pattern_regex s = scan_pattern is_word Outside s"
  by (simp add: scan_pattern_lang lang_out_def)

subsection \<open>The expression and the scanner accept the same patterns\<close>

lemma scan_pattern_snoc:
  "scan_pattern ok st s \<Longrightarrow> \<not> is_brace c \<Longrightarrow> scan_pattern ok st (s @ [c])"
proof (induction s arbitrary: st)
  case Nil
  then show ?case by (simp add: is_brace_def)
next
  case (Cons x xs)
  then show ?case by (cases st) (auto split: if_splits)
qed

lemma scan_pattern_count:
  "scan_pattern ok st s \<Longrightarrow>
   count_list s (CHR ''}'') = count_list s (CHR ''{'') + (if st = Outside then 0 else 1)"
proof (induction s arbitrary: st)
  case Nil
  then show ?case by simp
next
  case (Cons x xs)
  show ?case
  proof (cases st)
    case Outside
    with Cons.prems Cons.IH[of AfterOpen] Cons.IH[of Outside] show ?thesis
      by (auto split: if_splits)
  next
    case AfterOpen
    with Cons.prems Cons.IH[of InName] show ?thesis
      by (auto simp: is_brace_def split: if_splits)
  next
    case InName
    with Cons.prems Cons.IH[of InName] Cons.IH[of Outside] show ?thesis
      by (auto simp: is_brace_def split: if_splits)
  qed
qed

lemma scan_pattern_mono:
  "scan_pattern ok st s \<Longrightarrow> scan_pattern (\<lambda>c. True) st s"
proof (induction s arbitrary: st)
  case Nil
  then show ?case by simp
next
  case (Cons x xs)
  then show ?case by (cases st) (auto simp: is_brace_def split: if_splits)
qed

lemma re_match_pattern_regex:
  "re_match_anchored pattern_regex s = scan_pattern is_word Outside s"
proof -
  have "scan_pattern is_word Outside s"
    if "s \<noteq> []" "last s = CHR 0x0A" "scan_pattern is_word Outside (butlast s)"
  proof -
    have "\<not> is_brace (CHR 0x0A)" by (simp add: is_brace_def)
    with that(3) have "scan_pattern is_word Outside (butlast s @ [CHR 0x0A])"
      by (rule scan_pattern_snoc)
    with that(1,2) show ?thesis by (metis append_butlast_last_id)
  qed
  then show ?thesis
    unfolding re_match_anchored_def matches_pattern_regex by blast
qed

lemma validate_pattern_word_template:
  "(validate_pattern pat = Inr ()) = word_template pat"
proof (cases "pat = []")
  case True
  then show ?thesis by (simp add: validate_pattern_def word_template_def)
next
  case False
  show ?thesis
  proof (cases "scan_pattern is_word Outside pat")
    case True
    from scan_pattern_count[OF True]
    have "count_list pat (CHR ''{'') = count_list pat (CHR ''}'')" by simp
    with True False show ?thesis
      by (simp add: validate_pattern_def word_template_def re_match_pattern_regex)
  next
    case sc: False
    with False show ?thesis
      by (simp add: validate_pattern_def word_template_def re_match_pattern_regex)
  qed
qed

lemma validate_pattern_error:
  "validate_pattern pat \<noteq> Inr () \<Longrightarrow> \<exists>msg. validate_pattern pat = Inl (ValueError msg)"
  by (auto simp: validate_pattern_def split: if_splits)

text \<open>
  Claim C4, as amended. \<^verbatim>\<open>_validate_pattern\<close> succeeds exactly for the patterns that
  are not empty and are made of text without braces and of placeholders \<^verbatim>\<open>{name}\<close>
  whose names are non-empty and hold word characters only. So it fails whenever the
  pattern is empty, the braces are unbalanced, or a name is empty or holds a brace, and
  also when a name holds any other character that is not a word character; every failure
  is a \<^verbatim>\<open>ValueError\<close>. It rejects \<^verbatim>\<open>{a{b}}\<close> and \<^verbatim>\<open>{}\<close> and accepts
  \<^verbatim>\<open>{a}_{b}\<close> and \<^verbatim>\<open>flat\<close>.
\<close>

theorem validate_pattern_iff:
  "(validate_pattern pat = Inr ()) = word_template pat
   \<and> (\<not> spec_valid_template pat \<longrightarrow> validate_pattern pat \<noteq> Inr ())
   \<and> (validate_pattern pat \<noteq> Inr () \<longrightarrow> (\<exists>msg. validate_pattern pat = Inl (ValueError msg)))
   \<and> validate_pattern ''{a{b}}'' = Inl (ValueError ''Naming pattern has invalid placeholder format'')
   \<and> validate_pattern ''{}'' = Inl (ValueError ''Naming pattern has invalid placeholder format'')
   \<and> validate_pattern ''{a}_{b}'' = Inr ()
   \<and> validate_pattern ''flat'' = Inr ()"
proof -
  have 1: "(validate_pattern pat = Inr ()) = word_template pat"
    by (rule validate_pattern_word_template)
  have 2: "\<not> spec_valid_template pat \<longrightarrow> validate_pattern pat \<noteq> Inr ()"
    unfolding 1 word_template_def spec_valid_template_def using scan_pattern_mono by blast
  have 3: "validate_pattern pat \<noteq> Inr () \<longrightarrow> (\<exists>msg. validate_pattern pat = Inl (ValueError msg))"
    using validate_pattern_error by blast
  have 4: "validate_pattern ''{a{b}}'' = Inl (ValueError ''Naming pattern has invalid placeholder format'')"
    by (simp add: validate_pattern_def re_match_pattern_regex is_brace_def is_word_def)
  have 5: "validate_pattern ''{}'' = Inl (ValueError ''Naming pattern has invalid placeholder format'')"
    by (simp add: validate_pattern_def re_match_pattern_regex is_brace_def is_word_def)
  have 6: "validate_pattern ''{a}_{b}'' = Inr ()"
    by (simp add: validate_pattern_def re_match_pattern_regex is_brace_def is_word_def)
  have 7: "validate_pattern ''flat'' = Inr ()"
    by (simp add: validate_pattern_def re_match_pattern_regex is_brace_def is_word_def)
  from 1 2 3 4 5 6 7 show ?thesis by blast
qed

theorem validate_pattern_iff_witness:
  "\<not> spec_valid_template ''{a{b}}'' \<and> validate_pattern ''{a{b}}'' \<noteq> Inr ()
   \<and> (\<exists>msg. validate_pattern ''{a{b}}'' = Inl (ValueError msg))
   \<and> word_template ''{year}-{month}'' \<and> validate_pattern ''{year}-{month}'' = Inr ()
   \<and> word_template [CHR ''{'', CHR 0xE9, CHR ''}'']
   \<and> validate_pattern [CHR ''{'', CHR 0xE9, CHR ''}''] = Inr ()"
proof -
  have a: "\<not> spec_valid_template ''{a{b}}''"
    by (simp add: spec_valid_template_def is_brace_def)
  have b: "word_template ''{year}-{month}''"
    by (simp add: word_template_def is_brace_def is_word_def)
  have c: "word_template [CHR ''{'', CHR 0xE9, CHR ''}'']"
    by (simp add: word_template_def is_brace_def is_word_def)
  from a b c validate_pattern_iff[of "''{a{b}}''"] validate_pattern_iff[of "''{year}-{month}''"]
       validate_pattern_iff[of "[CHR ''{'', CHR 0xE9, CHR ''}'']"]
  show ?thesis by blast
qed

text \<open>
  Claim C4 as stated fails: the pattern \<^verbatim>\<open>{a-b}\<close> is not empty, its braces are
  balanced and its one name is neither empty nor holds a brace, yet it is rejected.
\<close>

theorem validate_pattern_word_counterexample:
  "validate_pattern ''{a-b}'' = Inl (ValueError ''Naming pattern has invalid placeholder format'')
   \<and> spec_valid_template ''{a-b}''
   \<and> count_list ''{a-b}'' (CHR ''{'') = count_list ''{a-b}'' (CHR ''}'')"
  by (simp add: validate_pattern_def re_match_pattern_regex spec_valid_template_def
      is_brace_def is_word_def)


text \<open>A name of word characters outside ASCII is accepted, one with U+00D7 is not.\<close>

lemma validate_pattern_latin1:
  "validate_pattern [CHR ''{'', CHR 0xE9, CHR ''}''] = Inr ()
   \<and> validate_pattern [CHR ''{'', CHR 0xD7, CHR ''}'']
       = Inl (ValueError ''Naming pattern has invalid placeholder format'')"
  by (simp add: validate_pattern_def re_match_pattern_regex is_brace_def is_word_def)

lemma NamingEngine_empty: "NamingEngine_init (Some []) = Inr \<lparr>pattern = DEFAULT_PATTERN\<rparr>"
  by (simp add: NamingEngine_init_def DEFAULT_PATTERN_def validate_pattern_def
      re_match_pattern_regex is_brace_def is_word_def)

section \<open>Sequential replacement and single-pass rendering\<close>

subsection \<open>Tokens of a pattern\<close>

lemma unparse_Cons: "unparse (t # ts) = token_text t @ unparse ts"
  by (simp add: unparse_def)

lemma unparse_tokenize: "unparse (tokenize s) = s"
proof (induction s rule: tokenize.induct)
  case 1
  show ?case by (simp add: unparse_def)
next
  case (2 c cs)
  let ?name = "takeWhile (\<lambda>d. \<not> is_brace d) cs"
  let ?rest = "dropWhile (\<lambda>d. \<not> is_brace d) cs"
  show ?case
  proof (cases "c = CHR ''{'' \<and> ?name \<noteq> [] \<and> ?rest \<noteq> [] \<and> hd ?rest = CHR ''}''")
    case True
    then have tk: "tokenize (c # cs) = Placeholder ?name # tokenize (tl ?rest)"
      by (simp add: Let_def)
    from True have ih: "unparse (tokenize (tl ?rest)) = tl ?rest"
      using "2.IH"(1)[OF refl refl] by simp
    from True have "?rest = CHR ''}'' # tl ?rest" by (metis list.collapse)
    then have "?name @ CHR ''}'' # tl ?rest = cs"
      by (metis takeWhile_dropWhile_id)
    with True tk ih show ?thesis by (simp add: unparse_Cons braced_def)
  next
    case False
    then have tk: "tokenize (c # cs) = Literal [c] # tokenize cs"
      by (auto simp: Let_def)
    from False have "unparse (tokenize cs) = cs"
      using "2.IH"(2)[OF refl refl] by blast
    with tk show ?thesis by (simp add: unparse_Cons)
  qed
qed

lemma findall_tokenize: "findall_placeholders s = placeholder_names (tokenize s)"
proof (induction s rule: tokenize.induct)
  case 1
  show ?case by simp
next
  case (2 c cs)
  let ?name = "takeWhile (\<lambda>d. \<not> is_brace d) cs"
  let ?rest = "dropWhile (\<lambda>d. \<not> is_brace d) cs"
  show ?case
  proof (cases "c = CHR ''{'' \<and> ?name \<noteq> [] \<and> ?rest \<noteq> [] \<and> hd ?rest = CHR ''}''")
    case True
    then have "findall_placeholders (tl ?rest) = placeholder_names (tokenize (tl ?rest))"
      using "2.IH"(1)[OF refl refl] by simp
    with True show ?thesis by (simp add: Let_def)
  next
    case False
    then have "findall_placeholders cs = placeholder_names (tokenize cs)"
      using "2.IH"(2)[OF refl refl] by blast
    with False show ?thesis by (auto simp: Let_def)
  qed
qed


lemma scan_InName_split:
  "scan_pattern ok InName cs \<Longrightarrow>
   \<exists>n r. cs = n @ CHR ''}'' # r \<and> list_all (\<lambda>c. \<not> is_brace c) n \<and> scan_pattern ok Outside r"
proof (induction cs)
  case Nil
  then show ?case by simp
next
  case (Cons x xs)
  show ?case
  proof (cases "ok x \<and> \<not> is_brace x")
    case True
    with Cons.prems have "scan_pattern ok InName xs" by simp
    from Cons.IH[OF this] obtain n r where
      "xs = n @ CHR ''}'' # r" "list_all (\<lambda>c. \<not> is_brace c) n" "scan_pattern ok Outside r"
      by blast
    with True have "x # xs = (x # n) @ CHR ''}'' # r" "list_all (\<lambda>c. \<not> is_brace c) (x # n)"
      by simp_all
    with \<open>scan_pattern ok Outside r\<close> show ?thesis by blast
  next
    case False
    with Cons.prems have "x = CHR ''}''" "scan_pattern ok Outside xs"
      by (auto split: if_splits)
    then have "x # xs = [] @ CHR ''}'' # xs" "list_all (\<lambda>c. \<not> is_brace c) []"
      by simp_all
    with \<open>scan_pattern ok Outside xs\<close> show ?thesis by blast
  qed
qed

lemma scan_AfterOpen_split:
  assumes "scan_pattern ok AfterOpen cs"
  shows "\<exists>n r. cs = n @ CHR ''}'' # r \<and> n \<noteq> [] \<and> list_all (\<lambda>c. \<not> is_brace c) n
            \<and> scan_pattern ok Outside r"
proof (cases cs)
  case Nil
  with assms show ?thesis by simp
next
  case (Cons x xs)
  with assms have x: "\<not> is_brace x" and "scan_pattern ok InName xs"
    by (auto split: if_splits)
  from scan_InName_split[OF this(2)] obtain n r where
    "xs = n @ CHR ''}'' # r" "list_all (\<lambda>c. \<not> is_brace c) n" "scan_pattern ok Outside r"
    by blast
  with x Cons have "cs = (x # n) @ CHR ''}'' # r" "x # n \<noteq> []"
    "list_all (\<lambda>c. \<not> is_brace c) (x # n)" by simp_all
  with \<open>scan_pattern ok Outside r\<close> show ?thesis by blast
qed

lemma span_name:
  assumes "list_all (\<lambda>c. \<not> is_brace c) n"
  shows "takeWhile (\<lambda>d. \<not> is_brace d) (n @ CHR ''}'' # r) = n"
    and "dropWhile (\<lambda>d. \<not> is_brace d) (n @ CHR ''}'' # r) = CHR ''}'' # r"
proof -
  from assms have a: "\<And>x. x \<in> set n \<Longrightarrow> \<not> is_brace x" by (simp add: list_all_iff)
  have b: "is_brace (CHR ''}'')" by (simp add: is_brace_def)
  from a b show "takeWhile (\<lambda>d. \<not> is_brace d) (n @ CHR ''}'' # r) = n"
    by simp
  from a b show "dropWhile (\<lambda>d. \<not> is_brace d) (n @ CHR ''}'' # r) = CHR ''}'' # r"
    by simp
qed

lemma tokenize_ok:
  "scan_pattern ok Outside s \<Longrightarrow> list_all token_ok (tokenize s)"
proof (induction s rule: tokenize.induct)
  case 1
  show ?case by simp
next
  case (2 c cs)
  let ?name = "takeWhile (\<lambda>d. \<not> is_brace d) cs"
  let ?rest = "dropWhile (\<lambda>d. \<not> is_brace d) cs"
  show ?case
  proof (cases "c = CHR ''{''")
    case True
    with "2.prems" have "scan_pattern ok AfterOpen cs" by simp
    from scan_AfterOpen_split[OF this] obtain n r where nr:
      "cs = n @ CHR ''}'' # r" "n \<noteq> []" "list_all (\<lambda>c. \<not> is_brace c) n"
      "scan_pattern ok Outside r" by blast
    from span_name[OF nr(3), of r] nr(1)
    have name: "?name = n" and rest: "?rest = CHR ''}'' # r" by simp_all
    with True nr(2) have cond:
      "c = CHR ''{'' \<and> ?name \<noteq> [] \<and> ?rest \<noteq> [] \<and> hd ?rest = CHR ''}''" by simp
    then have tk: "tokenize (c # cs) = Placeholder n # tokenize r"
      using name rest by (simp add: Let_def)
    from cond rest nr(4) have "list_all token_ok (tokenize r)"
      using "2.IH"(1)[OF refl refl] by simp
    with tk nr(2,3) show ?thesis by simp
  next
    case False
    with "2.prems" have c: "c \<noteq> CHR ''}''" and cs: "scan_pattern ok Outside cs"
      by (auto split: if_splits)
    from False have tk: "tokenize (c # cs) = Literal [c] # tokenize cs"
      by (simp add: Let_def)
    from False cs have "list_all token_ok (tokenize cs)"
      using "2.IH"(2)[OF refl refl] by blast
    with tk False show ?thesis by simp
  qed
qed

subsection \<open>One replacement on a token list\<close>

lemma braced_not_Nil: "braced p \<noteq> []"
  by (simp add: braced_def)

lemma str_replace_plain:
  "CHR ''{'' \<notin> set l \<Longrightarrow> str_replace (braced p) v (l @ x) = l @ str_replace (braced p) v x"
proof (induction l)
  case Nil
  show ?case by simp
next
  case (Cons c l)
  then have "\<not> prefix (braced p) (c # l @ x)" by (auto simp: braced_def)
  with Cons show ?case by (simp add: braced_not_Nil)
qed

lemma prefix_name:
  "CHR ''}'' \<notin> set p \<Longrightarrow> CHR ''}'' \<notin> set n \<Longrightarrow>
   prefix (p @ [CHR ''}'']) (n @ CHR ''}'' # x) \<longleftrightarrow> p = n"
proof (induction p arbitrary: n)
  case Nil
  then show ?case by (cases n) auto
next
  case (Cons a p)
  then show ?case by (cases n) auto
qed

lemma str_replace_placeholder:
  assumes "list_all (\<lambda>c. \<not> is_brace c) p" "list_all (\<lambda>c. \<not> is_brace c) n"
  shows "str_replace (braced p) v (braced n @ x)
           = (if n = p then v else braced n) @ str_replace (braced p) v x"
proof -
  from assms have p: "CHR ''}'' \<notin> set p" and n: "CHR ''}'' \<notin> set n" "CHR ''{'' \<notin> set n"
    by (auto simp: list_all_iff is_brace_def)
  have pre: "prefix (braced p) (braced n @ x) \<longleftrightarrow> p = n"
    using prefix_name[OF p n(1), of x] by (simp add: braced_def)
  show ?thesis
  proof (cases "n = p")
    case True
    then have "str_replace (braced p) v (braced n @ x)
                 = v @ str_replace (braced p) v (drop (length (braced p)) (braced p @ x))"
      using pre by (simp add: braced_def)
    with True show ?thesis by simp
  next
    case False
    with pre have np: "\<not> prefix (braced p) (CHR ''{'' # n @ CHR ''}'' # x)"
      by (auto simp: braced_def)
    have "str_replace (braced p) v (braced n @ x)
            = CHR ''{'' # str_replace (braced p) v (n @ CHR ''}'' # x)"
      using np by (simp add: braced_def)
    also have "\<dots> = CHR ''{'' # n @ str_replace (braced p) v (CHR ''}'' # x)"
      using str_replace_plain[OF n(2)] by simp
    also have "\<dots> = CHR ''{'' # n @ CHR ''}'' # str_replace (braced p) v x"
      by (simp add: braced_def)
    finally show ?thesis using False by (simp add: braced_def)
  qed
qed

lemma subst_token_simps:
  "subst_token p v (Literal l) = Literal l"
  "subst_token p v (Placeholder n) = (if n = p then Literal v else Placeholder n)"
  by (auto simp: subst_token_def)

lemma str_replace_unparse:
  assumes "list_all (\<lambda>c. \<not> is_brace c) p"
  shows "list_all token_ok ts \<Longrightarrow>
         str_replace (braced p) v (unparse ts) = unparse (map (subst_token p v) ts)"
proof (induction ts)
  case Nil
  show ?case by (simp add: unparse_def braced_def)
next
  case (Cons t ts)
  then have ih: "str_replace (braced p) v (unparse ts) = unparse (map (subst_token p v) ts)"
    by simp
  show ?case
  proof (cases t)
    case (Literal l)
    with Cons.prems have "CHR ''{'' \<notin> set l" by simp
    from str_replace_plain[OF this] ih Literal show ?thesis
      by (simp add: unparse_Cons subst_token_simps)
  next
    case (Placeholder n)
    with Cons.prems have "list_all (\<lambda>c. \<not> is_brace c) n" by simp
    from str_replace_placeholder[OF assms this] ih Placeholder show ?thesis
      by (simp add: unparse_Cons subst_token_simps)
  qed
qed

lemma subst_token_ok:
  "CHR ''{'' \<notin> set v \<Longrightarrow> list_all token_ok ts \<Longrightarrow> list_all token_ok (map (subst_token p v) ts)"
proof (induction ts)
  case Nil
  show ?case by simp
next
  case (Cons t ts)
  then show ?case by (cases t) (simp_all add: subst_token_simps)
qed


subsection \<open>The loop of replacements\<close>

lemma substitute_names_tokens:
  "list_all token_ok ts \<Longrightarrow>
   list_all (\<lambda>p. list_all (\<lambda>c. \<not> is_brace c) p \<and> CHR ''{'' \<notin> set (fst (name_value md p))) ps \<Longrightarrow>
   fst (substitute_names md ps (unparse ts, ws)) = unparse (subst_tokens md ps ts)"
proof (induction ps arbitrary: ts ws)
  case Nil
  show ?case by simp
next
  case (Cons p ps)
  obtain v w where nv: "name_value md p = (v, w)" by (cases "name_value md p")
  then have fv: "fst (name_value md p) = v" by simp
  from Cons.prems(2) fv have p: "list_all (\<lambda>c. \<not> is_brace c) p" and v: "CHR ''{'' \<notin> set v"
    and ps: "list_all (\<lambda>p. list_all (\<lambda>c. \<not> is_brace c) p \<and> CHR ''{'' \<notin> set (fst (name_value md p))) ps"
    by simp_all
  have ok: "list_all token_ok (map (subst_token p v) ts)"
    using v Cons.prems(1) by (rule subst_token_ok)
  have rep: "str_replace (braced p) v (unparse ts) = unparse (map (subst_token p v) ts)"
    using p Cons.prems(1) by (rule str_replace_unparse)
  have "fst (substitute_names md (p # ps) (unparse ts, ws))
          = fst (substitute_names md ps
                  (unparse (map (subst_token p v) ts), if w then ws @ [p] else ws))"
    using rep by (simp add: nv)
  also have "\<dots> = unparse (subst_tokens md ps (map (subst_token p v) ts))"
    using ok ps by (rule Cons.IH)
  finally show ?case by (simp add: fv)
qed

lemma subst_tokens_map:
  "subst_tokens md ps ts =
     map (\<lambda>t. case t of
                 Literal l \<Rightarrow> Literal l
               | Placeholder n \<Rightarrow> if n \<in> set ps then Literal (fst (name_value md n))
                                  else Placeholder n) ts"
proof (induction ps arbitrary: ts)
  case Nil
  show ?case
    unfolding subst_tokens.simps
    by (rule map_idI[symmetric]) (simp split: token.splits)
next
  case (Cons p ps)
  show ?case
    unfolding subst_tokens.simps Cons.IH map_map
    by (rule map_cong) (auto simp: subst_token_simps split: token.splits)
qed

lemma placeholder_names_set: "set (placeholder_names ts) = {n. Placeholder n \<in> set ts}"
  by (induction ts rule: placeholder_names.induct) auto

lemma placeholder_names_ok:
  "list_all token_ok ts \<Longrightarrow> list_all (\<lambda>p. list_all (\<lambda>c. \<not> is_brace c) p) (placeholder_names ts)"
  by (induction ts rule: placeholder_names.induct) auto

lemma subst_tokens_all:
  "unparse (subst_tokens md (placeholder_names ts) ts) = concat (map (render_token md) ts)"
proof -
  have "map token_text (subst_tokens md (placeholder_names ts) ts) = map (render_token md) ts"
    unfolding subst_tokens_map map_map
    by (rule map_cong) (auto simp: placeholder_names_set split: token.splits)
  then show ?thesis by (simp add: unparse_def)
qed

lemma NamingEngine_init_valid:
  "NamingEngine_init pat = Inr eng \<Longrightarrow> validate_pattern (pattern eng) = Inr ()"
  by (auto simp: NamingEngine_init_def Let_def split: sum.splits)

lemma substitute_single_pass:
  assumes "validate_pattern pat = Inr ()"
    and "list_all (\<lambda>p. CHR ''{'' \<notin> set (fst (name_value md p))) (findall_placeholders pat)"
  shows "fst (substitute_names md (findall_placeholders pat) (pat, [])) = render_single_pass md pat"
proof -
  let ?ts = "tokenize pat"
  from assms(1) have "scan_pattern is_word Outside pat"
    by (simp add: validate_pattern_word_template word_template_def)
  then have ok: "list_all token_ok ?ts" by (rule tokenize_ok)
  have names: "findall_placeholders pat = placeholder_names ?ts" by (rule findall_tokenize)
  from placeholder_names_ok[OF ok] assms(2)
  have ps: "list_all (\<lambda>p. list_all (\<lambda>c. \<not> is_brace c) p \<and> CHR ''{'' \<notin> set (fst (name_value md p)))
              (placeholder_names ?ts)"
    unfolding names by (simp add: list_all_iff)
  have "fst (substitute_names md (placeholder_names ?ts) (unparse ?ts, []))
          = unparse (subst_tokens md (placeholder_names ?ts) ?ts)"
    using ok ps by (rule substitute_names_tokens)
  then show ?thesis
    by (simp add: names[symmetric] unparse_tokenize subst_tokens_all render_single_pass_def
        del: subst_tokens.simps) (simp add: names subst_tokens_all)
qed

text \<open>
  Claim C5, as amended. The substitution is a sequence of whole-string replacements, one
  for each placeholder occurrence of the template, in template order. For every template
  that the constructor accepts and every attribute map in which no substituted value
  holds an opening brace, the result is the single-pass rendering of the template: every
  value is inserted as it is and no later replacement touches it.
\<close>

theorem generate_filename_single_pass:
  assumes "NamingEngine_init pat = Inr eng"
    and "list_all (\<lambda>p. CHR ''{'' \<notin> set (fst (name_value md p)))
           (findall_placeholders (pattern eng))"
  shows "fst (substitute_names md (findall_placeholders (pattern eng)) (pattern eng, []))
           = render_single_pass md (pattern eng)
         \<and> generate_filename eng md = single_pass_filename eng md"
proof -
  from assms(1) have "validate_pattern (pattern eng) = Inr ()" by (rule NamingEngine_init_valid)
  from substitute_single_pass[OF this assms(2)]
  have 1: "fst (substitute_names md (findall_placeholders (pattern eng)) (pattern eng, []))
             = render_single_pass md (pattern eng)" .
  then have "generate_filename eng md = single_pass_filename eng md"
    by (simp add: generate_filename_def generate_filename_run_def single_pass_filename_def
        split_beta Let_def split: option.splits)
  with 1 show ?thesis by simp
qed

theorem generate_filename_single_pass_witness:
  "generate_filename \<lparr>pattern = ''{a}_{b}''\<rparr> [''a'' \<mapsto> PStr ''b}'', ''b'' \<mapsto> PStr ''X'']
     = single_pass_filename \<lparr>pattern = ''{a}_{b}''\<rparr> [''a'' \<mapsto> PStr ''b}'', ''b'' \<mapsto> PStr ''X'']
   \<and> single_pass_filename \<lparr>pattern = ''{a}_{b}''\<rparr> [''a'' \<mapsto> PStr ''b}'', ''b'' \<mapsto> PStr ''X'']
     = ''b}_X''"
proof -
  have 1: "NamingEngine_init (Some ''{a}_{b}'') = Inr \<lparr>pattern = ''{a}_{b}''\<rparr>"
    by (simp add: NamingEngine_init_def validate_pattern_def re_match_pattern_regex
        is_brace_def is_word_def)
  have 2: "list_all (\<lambda>p. CHR ''{'' \<notin> set (fst (name_value [''a'' \<mapsto> PStr ''b}'', ''b'' \<mapsto> PStr ''X''] p)))
             (findall_placeholders (pattern \<lparr>pattern = ''{a}_{b}''\<rparr>))"
    by (simp add: is_brace_def name_value_def)
  have 3: "single_pass_filename \<lparr>pattern = ''{a}_{b}''\<rparr> [''a'' \<mapsto> PStr ''b}'', ''b'' \<mapsto> PStr ''X'']
             = ''b}_X''"
    by (simp add: single_pass_filename_def render_single_pass_def is_brace_def name_value_def
        clean_filename_def sub_invalid_def invalid_chars_def strip_def rstrip_def)
  from generate_filename_single_pass[OF 1 2] 3 show ?thesis by simp
qed

text \<open>
  Claim C5 as stated fails: with the valid pattern \<^verbatim>\<open>{a}_{b}\<close> and the attributes
  \<^verbatim>\<open>{'a': '{b}', 'b': 'X'}\<close>, the value of \<^verbatim>\<open>a\<close> is put in and then replaced by the
  value of \<^verbatim>\<open>b\<close>: the result is \<^verbatim>\<open>X_X\<close>, where the single pass gives \<^verbatim>\<open>{b}_X\<close>.
\<close>

theorem generate_filename_resubstitution_counterexample:
  "NamingEngine_init (Some ''{a}_{b}'') = Inr \<lparr>pattern = ''{a}_{b}''\<rparr>
   \<and> generate_filename \<lparr>pattern = ''{a}_{b}''\<rparr> [''a'' \<mapsto> PStr ''{b}'', ''b'' \<mapsto> PStr ''X'']
       = ''X_X''
   \<and> single_pass_filename \<lparr>pattern = ''{a}_{b}''\<rparr> [''a'' \<mapsto> PStr ''{b}'', ''b'' \<mapsto> PStr ''X'']
       = ''{b}_X''"
proof -
  have 1: "NamingEngine_init (Some ''{a}_{b}'') = Inr \<lparr>pattern = ''{a}_{b}''\<rparr>"
    by (simp add: NamingEngine_init_def validate_pattern_def re_match_pattern_regex
        is_brace_def is_word_def)
  have 2: "generate_filename \<lparr>pattern = ''{a}_{b}''\<rparr> [''a'' \<mapsto> PStr ''{b}'', ''b'' \<mapsto> PStr ''X'']
             = ''X_X''"
    by (simp add: generate_filename_def generate_filename_run_def is_brace_def name_value_def
        braced_def clean_filename_def sub_invalid_def invalid_chars_def strip_def rstrip_def)
  have 3: "single_pass_filename \<lparr>pattern = ''{a}_{b}''\<rparr> [''a'' \<mapsto> PStr ''{b}'', ''b'' \<mapsto> PStr ''X'']
             = ''{b}_X''"
    by (simp add: single_pass_filename_def render_single_pass_def is_brace_def name_value_def
        clean_filename_def sub_invalid_def invalid_chars_def strip_def rstrip_def)
  from 1 2 3 show ?thesis by simp
qed


section \<open>Missing attributes\<close>

lemma str_nat_not_Nil: "str_nat n \<noteq> []"
  by (subst str_nat.simps) simp

lemma py_str_Nil: "py_str v = [] \<longleftrightarrow> v = PStr []"
  by (cases v) (auto simp: str_int_def str_nat_not_Nil)

lemma missing_name_value: "missing md p \<Longrightarrow> name_value md p = ([], True)"
  by (auto simp: missing_def name_value_def split: option.splits)

lemma missing_dir_value: "missing md p \<Longrightarrow> dir_value md p = ''unknown''"
  by (auto simp: missing_def dir_value_def py_str_Nil split: option.splits)

lemma substitute_names_warnings_mono:
  "set ws \<subseteq> set (snd (substitute_names md ps (s, ws)))"
proof (induction ps arbitrary: s ws)
  case Nil
  show ?case by simp
next
  case (Cons p ps)
  obtain v w where nv: "name_value md p = (v, w)" by (cases "name_value md p")
  have "set ws \<subseteq> set (if w then ws @ [p] else ws)" by auto
  also have "\<dots> \<subseteq> set (snd (substitute_names md ps (str_replace (braced p) v s, if w then ws @ [p] else ws)))"
    by (rule Cons.IH)
  finally show ?case by (simp add: nv)
qed

lemma substitute_names_warns:
  "missing md p \<Longrightarrow> p \<in> set ps \<Longrightarrow> p \<in> set (snd (substitute_names md ps (s, ws)))"
proof (induction ps arbitrary: s ws)
  case Nil
  then show ?case by simp
next
  case (Cons q ps)
  obtain v w where nv: "name_value md q = (v, w)" by (cases "name_value md q")
  show ?case
  proof (cases "q = p")
    case True
    with Cons.prems(1) nv have w: "w" "v = []" by (simp_all add: missing_name_value)
    have "p \<in> set (ws @ [p])" by simp
    with substitute_names_warnings_mono[of "ws @ [p]" md ps "str_replace (braced p) [] s"]
    have "p \<in> set (snd (substitute_names md ps (str_replace (braced p) [] s, ws @ [p])))"
      by blast
    with True w nv show ?thesis by simp
  next
    case False
    with Cons.prems have "p \<in> set ps" by simp
    from Cons.IH[OF Cons.prems(1) this] show ?thesis by (simp add: nv)
  qed
qed

lemma findall_braced:
  assumes "p \<noteq> []" "list_all (\<lambda>c. \<not> is_brace c) p"
  shows "findall_placeholders (braced p) = [p]"
proof -
  from span_name[OF assms(2), of "[]"] assms(1) show ?thesis
    by (simp add: braced_def Let_def)
qed

lemma str_replace_braced:
  assumes "list_all (\<lambda>c. \<not> is_brace c) p"
  shows "str_replace (braced p) v (braced p) = v"
  using str_replace_placeholder[OF assms assms, of v "[]"] by (simp add: braced_not_Nil)

lemma str_split_plain: "sep \<notin> set s \<Longrightarrow> str_split sep s = [s]"
  by (induction s) auto

text \<open>
  Claim C2. A placeholder whose attribute is absent, or whose value is empty once
  converted to a string, raises nothing: \<^verbatim>\<open>generate_filename\<close> and
  \<^verbatim>\<open>determine_destination_path\<close> have no raising statement, and the model of each is
  a total function. In \<^verbatim>\<open>generate_filename\<close> the loop replaces the placeholder by the
  empty string and logs the warning; in \<^verbatim>\<open>determine_destination_path\<close> the loop
  replaces it by \<^verbatim>\<open>unknown\<close>. For a pattern that is this one placeholder, the
  substituted name is empty and the directory is the base joined with \<^verbatim>\<open>unknown\<close>.
\<close>

theorem missing_placeholder_policy:
  assumes "md p = None \<or> (\<exists>v. md p = Some v \<and> py_str v = [])"
  shows "name_value md p = ([], True)
       \<and> dir_value md p = ''unknown''
       \<and> substitute_names md (p # ps) (s, ws)
           = substitute_names md ps (str_replace (braced p) [] s, ws @ [p])
       \<and> substitute_segment md (p # ps) seg
           = substitute_segment md ps (str_replace (braced p) ''unknown'' seg)
       \<and> (p \<in> set (findall_placeholders (pattern eng)) \<longrightarrow>
            p \<in> set (snd (generate_filename_run eng md)))
       \<and> (p \<noteq> [] \<and> list_all (\<lambda>c. \<not> is_brace c \<and> c \<noteq> CHR ''/'') p \<longrightarrow>
            substitute_names md (findall_placeholders (braced p)) (braced p, []) = ([], [p])
            \<and> determine_destination_path \<lparr>destination = base, hierarchy_pattern = braced p\<rparr> md
                = path_join base ''unknown'')"
proof -
  from assms have m: "missing md p" by (auto simp: missing_def)
  note nv = missing_name_value[OF m] and dv = missing_dir_value[OF m]
  have 3: "substitute_names md (p # ps) (s, ws)
           = substitute_names md ps (str_replace (braced p) [] s, ws @ [p])"
    by (simp add: nv)
  have 4: "substitute_segment md (p # ps) seg
           = substitute_segment md ps (str_replace (braced p) ''unknown'' seg)"
    by (simp add: dv)
  have 5: "p \<in> set (findall_placeholders (pattern eng)) \<longrightarrow>
            p \<in> set (snd (generate_filename_run eng md))"
  proof
    assume "p \<in> set (findall_placeholders (pattern eng))"
    from substitute_names_warns[OF m this, of "pattern eng" "[]"]
    show "p \<in> set (snd (generate_filename_run eng md))"
      by (simp add: generate_filename_run_def split_beta Let_def)
  qed
  have 6: "substitute_names md (findall_placeholders (braced p)) (braced p, []) = ([], [p])
            \<and> determine_destination_path \<lparr>destination = base, hierarchy_pattern = braced p\<rparr> md
                = path_join base ''unknown''"
    if p: "p \<noteq> []" "list_all (\<lambda>c. \<not> is_brace c \<and> c \<noteq> CHR ''/'') p"
  proof -
    from p(2) have nb: "list_all (\<lambda>c. \<not> is_brace c) p" and ns: "CHR ''/'' \<notin> set p"
      by (auto simp: list_all_iff)
    note fa = findall_braced[OF p(1) nb]
    have a: "substitute_names md (findall_placeholders (braced p)) (braced p, []) = ([], [p])"
      by (simp add: fa nv str_replace_braced[OF nb])
    from ns have "CHR ''/'' \<notin> set (braced p)" by (simp add: braced_def)
    then have sp: "str_split (CHR ''/'') (braced p) = [braced p]" by (rule str_split_plain)
    have "determine_destination_path \<lparr>destination = base, hierarchy_pattern = braced p\<rparr> md
            = path_join base ''unknown''"
      by (simp add: determine_destination_path_def sp fa dv str_replace_braced[OF nb] braced_not_Nil)
    with a show ?thesis by simp
  qed
  from nv dv 3 4 5 6 show ?thesis by blast
qed

theorem missing_placeholder_policy_witness:
  "generate_filename_run \<lparr>pattern = ''{date}_{original_filename}''\<rparr>
       [''date'' \<mapsto> PStr '''', ''original_filename'' \<mapsto> PStr ''IMG_001'']
     = (''IMG_001'', [''date''])
   \<and> ''date'' \<in> set (snd (generate_filename_run \<lparr>pattern = ''{date}_{original_filename}''\<rparr>
                              [''date'' \<mapsto> PStr '''', ''original_filename'' \<mapsto> PStr ''IMG_001'']))
   \<and> determine_destination_path \<lparr>destination = ''/base'', hierarchy_pattern = ''{year}/{month}''\<rparr>
       [''year'' \<mapsto> PStr ''2023''] = ''/base/2023/unknown''
   \<and> determine_destination_path \<lparr>destination = ''/base'', hierarchy_pattern = braced ''month''\<rparr>
       [''year'' \<mapsto> PStr ''2023''] = ''/base/unknown''"
proof -
  let ?md = "[''date'' \<mapsto> PStr '''', ''original_filename'' \<mapsto> PStr ''IMG_001'']"
  let ?eng = "\<lparr>pattern = ''{date}_{original_filename}''\<rparr>"
  have h1: "?md ''date'' = None \<or> (\<exists>v. ?md ''date'' = Some v \<and> py_str v = [])" by simp
  have in1: "''date'' \<in> set (findall_placeholders (pattern ?eng))"
    by (simp add: is_brace_def)
  have run: "generate_filename_run ?eng ?md = (''IMG_001'', [''date''])"
    by (simp add: generate_filename_run_def is_brace_def name_value_def
        braced_def clean_filename_def sub_invalid_def invalid_chars_def strip_def rstrip_def)
  let ?mdd = "[''year'' \<mapsto> PStr ''2023'']"
  have h2: "?mdd ''month'' = None \<or> (\<exists>v. ?mdd ''month'' = Some v \<and> py_str v = [])" by simp
  have p2: "''month'' \<noteq> [] \<and> list_all (\<lambda>c. \<not> is_brace c \<and> c \<noteq> CHR ''/'') ''month''"
    by (simp add: is_brace_def)
  have d1: "determine_destination_path \<lparr>destination = ''/base'', hierarchy_pattern = ''{year}/{month}''\<rparr>
       ?mdd = ''/base/2023/unknown''"
    by (simp add: determine_destination_path_def is_brace_def dir_value_def braced_def
        path_join_def isabs_def)
  have pj: "path_join ''/base'' ''unknown'' = ''/base/unknown''"
    by (simp add: path_join_def isabs_def)
  from missing_placeholder_policy[where md = ?md and p = "''date''" and eng = ?eng] h1 in1
  have a: "''date'' \<in> set (snd (generate_filename_run ?eng ?md))" by blast
  from missing_placeholder_policy[where md = ?mdd and p = "''month''" and base = "''/base''"] h2 p2
  have b: "determine_destination_path \<lparr>destination = ''/base'', hierarchy_pattern = braced ''month''\<rparr>
             ?mdd = path_join ''/base'' ''unknown''" by blast
  from a b run d1 pj show ?thesis by simp
qed

section \<open>Duplicate file names\<close>

subsection \<open>Decimal numerals are distinct\<close>

lemma digit_char_inj: "m < 10 \<Longrightarrow> n < 10 \<Longrightarrow> digit_char m = digit_char n \<Longrightarrow> m = n"
proof -
  assume a: "m < 10" "n < 10" "digit_char m = digit_char n"
  have d: "distinct ''0123456789''" by simp
  from a(1,2) have "m < length ''0123456789''" "n < length ''0123456789''" by simp_all
  with d a(3) show "m = n" unfolding digit_char_def by (simp only: nth_eq_iff_index_eq)
qed

lemma str_nat_small: "n < 10 \<Longrightarrow> str_nat n = [digit_char n]"
  by (subst str_nat.simps) simp

lemma str_nat_large: "\<not> n < 10 \<Longrightarrow> str_nat n = str_nat (n div 10) @ [digit_char (n mod 10)]"
  by (subst str_nat.simps) simp

lemma str_nat_inj: "str_nat m = str_nat n \<Longrightarrow> m = n"
proof (induction m arbitrary: n rule: str_nat.induct)
  case (1 m)
  show ?case
  proof (cases "m < 10")
    case True
    note m = this
    show ?thesis
    proof (cases "n < 10")
      case True
      with m "1.prems" show ?thesis by (simp add: str_nat_small digit_char_inj)
    next
      case False
      with m "1.prems" have "[digit_char m] = str_nat (n div 10) @ [digit_char (n mod 10)]"
        by (simp add: str_nat_small str_nat_large)
      then have "str_nat (n div 10) = []" by simp
      then show ?thesis by (simp add: str_nat_not_Nil)
    qed
  next
    case False
    note m = this
    show ?thesis
    proof (cases "n < 10")
      case True
      with m "1.prems" have "str_nat (m div 10) @ [digit_char (m mod 10)] = [digit_char n]"
        by (simp add: str_nat_small str_nat_large)
      then have "str_nat (m div 10) = []" by simp
      then show ?thesis by (simp add: str_nat_not_Nil)
    next
      case False
      with m "1.prems" have
        "str_nat (m div 10) @ [digit_char (m mod 10)] = str_nat (n div 10) @ [digit_char (n mod 10)]"
        by (simp add: str_nat_large)
      then have a: "str_nat (m div 10) = str_nat (n div 10)"
        and b: "digit_char (m mod 10) = digit_char (n mod 10)" by simp_all
      from "1.IH"[OF m a] have "m div 10 = n div 10" .
      moreover from b have "m mod 10 = n mod 10" by (intro digit_char_inj) simp_all
      ultimately show ?thesis by (metis div_mult_mod_eq)
    qed
  qed
qed

subsection \<open>The probed paths are distinct\<close>

lemma path_join_relative:
  "\<not> isabs b \<Longrightarrow> path_join a b = (if a = [] \<or> last a = CHR ''/'' then a else a @ ''/'') @ b"
  by (simp add: path_join_def)

lemma basename_no_slash: "CHR ''/'' \<notin> set (basename p)"
proof -
  have "\<And>x. x \<in> set (takeWhile (\<lambda>c. c \<noteq> CHR ''/'') (rev p)) \<Longrightarrow> x \<noteq> CHR ''/''"
    by (rule set_takeWhileD[THEN conjunct2])
  then show ?thesis unfolding basename_def by auto
qed

lemma splitext_fst_subset: "set (fst (splitext b)) \<subseteq> set b"
  by (auto simp: splitext_def Let_def dest: in_set_takeD)

lemma stem_no_slash: "CHR ''/'' \<notin> set (fst (splitext (basename p)))"
  using basename_no_slash[of p] splitext_fst_subset[of "basename p"] by blast

lemma candidate_relative: "CHR ''/'' \<notin> set name \<Longrightarrow> \<not> isabs (name @ ''_'' @ s)"
  by (cases name) (auto simp: isabs_def)

lemma candidate_inj:
  assumes "CHR ''/'' \<notin> set name"
    and "path_join d (name @ ''_'' @ str_nat j @ ext) = path_join d (name @ ''_'' @ str_nat k @ ext)"
  shows "j = k"
proof -
  from assms(2) have "name @ ''_'' @ str_nat j @ ext = name @ ''_'' @ str_nat k @ ext"
    by (simp only: path_join_relative[OF candidate_relative[OF assms(1)]] same_append_eq)
  then have "str_nat j = str_nat k" by simp
  then show ?thesis by (rule str_nat_inj)
qed

lemma probe_inj: "probe p j = probe p k \<Longrightarrow> j = k"
  unfolding probe_def using stem_no_slash by (rule candidate_inj)

lemma free_candidate:
  fixes f :: "nat \<Rightarrow> string" and c :: nat
  assumes fin: "finite {q. ex q}" and inj: "\<And>j k. f j = f k \<Longrightarrow> j = k"
  shows "\<exists>k\<ge>c. \<not> ex (f k) \<and> (\<forall>j. c \<le> j \<and> j < k \<longrightarrow> ex (f j))"
proof -
  have "\<exists>k\<ge>c. \<not> ex (f k)"
  proof (rule ccontr)
    assume "\<not> (\<exists>k\<ge>c. \<not> ex (f k))"
    then have sub: "f ` {c..} \<subseteq> {q. ex q}" by auto
    have "inj_on f {c..}" using inj by (auto simp: inj_on_def)
    moreover have "infinite {c..}" by (rule infinite_Ici)
    ultimately have "infinite (f ` {c..})" by (simp add: finite_image_iff)
    with sub fin show False using finite_subset by blast
  qed
  then obtain k0 where k0: "c \<le> k0 \<and> \<not> ex (f k0)" by blast
  define k where "k = (LEAST k. c \<le> k \<and> \<not> ex (f k))"
  have 1: "c \<le> k \<and> \<not> ex (f k)" unfolding k_def using k0 by (rule LeastI)
  have 2: "ex (f j)" if "c \<le> j" "j < k" for j
  proof (rule ccontr)
    assume "\<not> ex (f j)"
    with that(1) have "k \<le> j" unfolding k_def by (intro Least_le) simp
    with that(2) show False by simp
  qed
  from 1 2 show ?thesis by blast
qed

subsection \<open>The duplicate loop\<close>

lemma only_queries_trans: "only_queries w1 w2 \<Longrightarrow> only_queries w2 w3 \<Longrightarrow> only_queries w1 w3"
proof -
  assume a: "only_queries w1 w2" and b: "only_queries w2 w3"
  from a obtain c1 where c1: "calls w2 = calls w1 @ c1" "list_all is_query c1"
    unfolding only_queries_def by (metis append_take_drop_id)
  from b obtain c2 where c2: "calls w3 = calls w2 @ c2" "list_all is_query c2"
    unfolding only_queries_def by (metis append_take_drop_id)
  from a b have "filesystem w3 = filesystem w1" by (simp add: only_queries_def)
  with c1 c2 show ?thesis by (simp add: only_queries_def)
qed

lemma only_queries_exists: "only_queries w (snd (os_path_exists os p w))"
  by (simp add: only_queries_def os_path_exists_def)


lemma duplicates_loop_stop:
  "\<not> path_exists os (filesystem w) cur \<Longrightarrow>
   duplicates_loop os d name ext counter cur w = Some (cur, snd (os_path_exists os cur w))"
  by (subst duplicates_loop.simps) (simp add: os_path_exists_def)

lemma duplicates_loop_step:
  "path_exists os (filesystem w) cur \<Longrightarrow>
   duplicates_loop os d name ext counter cur w
     = duplicates_loop os d name ext (counter + 1)
         (path_join d (name @ ''_'' @ str_nat counter @ ext)) (snd (os_path_exists os cur w))"
  by (subst duplicates_loop.simps) (simp add: os_path_exists_def)

lemma duplicates_loop_run:
  assumes "path_exists os (filesystem w) cur"
    and "counter \<le> k"
    and "\<not> path_exists os (filesystem w) (path_join d (name @ ''_'' @ str_nat k @ ext))"
    and "\<forall>j. counter \<le> j \<and> j < k \<longrightarrow>
           path_exists os (filesystem w) (path_join d (name @ ''_'' @ str_nat j @ ext))"
  shows "\<exists>w'. duplicates_loop os d name ext counter cur w
                = Some (path_join d (name @ ''_'' @ str_nat k @ ext), w')
              \<and> only_queries w w'"
  using assms
proof (induction "k - counter" arbitrary: counter cur w)
  case 0
  then have eq: "counter = k" by simp
  let ?w1 = "snd (os_path_exists os cur w)"
  let ?c = "path_join d (name @ ''_'' @ str_nat k @ ext)"
  have fs1: "filesystem ?w1 = filesystem w" by (simp add: os_path_exists_def)
  from "0.prems"(3) fs1 have "\<not> path_exists os (filesystem ?w1) ?c" by simp
  from duplicates_loop_stop[OF this]
  have "duplicates_loop os d name ext (k + 1) ?c ?w1 = Some (?c, snd (os_path_exists os ?c ?w1))" .
  with duplicates_loop_step[OF "0.prems"(1), of d name ext counter] eq
  have "duplicates_loop os d name ext counter cur w = Some (?c, snd (os_path_exists os ?c ?w1))"
    by simp
  moreover have "only_queries w (snd (os_path_exists os ?c ?w1))"
    using only_queries_exists only_queries_exists by (rule only_queries_trans)
  ultimately show ?case by blast
next
  case (Suc n)
  then have lt: "counter < k" by simp
  let ?w1 = "snd (os_path_exists os cur w)"
  let ?c = "path_join d (name @ ''_'' @ str_nat counter @ ext)"
  have fs1: "filesystem ?w1 = filesystem w" by (simp add: os_path_exists_def)
  from Suc.prems(4) lt have ex: "path_exists os (filesystem ?w1) ?c" by (simp add: fs1)
  have "\<exists>w'. duplicates_loop os d name ext (counter + 1) ?c ?w1
                = Some (path_join d (name @ ''_'' @ str_nat k @ ext), w')
              \<and> only_queries ?w1 w'"
  proof (rule Suc.hyps(1))
    show "n = k - (counter + 1)" using Suc.hyps(2) by simp
    show "path_exists os (filesystem ?w1) ?c" by (rule ex)
    show "counter + 1 \<le> k" using lt by simp
    show "\<not> path_exists os (filesystem ?w1) (path_join d (name @ ''_'' @ str_nat k @ ext))"
      using Suc.prems(3) by (simp add: fs1)
    show "\<forall>j. counter + 1 \<le> j \<and> j < k \<longrightarrow>
           path_exists os (filesystem ?w1) (path_join d (name @ ''_'' @ str_nat j @ ext))"
      using Suc.prems(4) by (simp add: fs1)
  qed
  then obtain w' where w': "duplicates_loop os d name ext (counter + 1) ?c ?w1
                = Some (path_join d (name @ ''_'' @ str_nat k @ ext), w')" "only_queries ?w1 w'"
    by blast
  from w'(1) duplicates_loop_step[OF Suc.prems(1), of d name ext counter]
  have "duplicates_loop os d name ext counter cur w
          = Some (path_join d (name @ ''_'' @ str_nat k @ ext), w')" by simp
  moreover from only_queries_exists w'(2) have "only_queries w w'" by (rule only_queries_trans)
  ultimately show ?case by blast
qed

lemma handle_duplicates_absent:
  "\<not> path_exists os (filesystem w) p \<Longrightarrow>
   handle_duplicates os p w = Some (p, snd (os_path_exists os p w))"
  by (simp add: handle_duplicates_def os_path_exists_def)

lemma handle_duplicates_present:
  "path_exists os (filesystem w) p \<Longrightarrow>
   handle_duplicates os p w
     = duplicates_loop os (dirname p) (fst (splitext (basename p))) (snd (splitext (basename p)))
         1 p (snd (os_path_exists os p w))"
  by (simp add: handle_duplicates_def os_path_exists_def split_beta Let_def)

lemma handle_duplicates_probe:
  assumes "path_exists os (filesystem w) p" and "1 \<le> k"
    and "\<not> path_exists os (filesystem w) (probe p k)"
    and "\<forall>j. 1 \<le> j \<and> j < k \<longrightarrow> path_exists os (filesystem w) (probe p j)"
  shows "\<exists>w'. handle_duplicates os p w = Some (probe p k, w') \<and> only_queries w w'"
proof -
  let ?w1 = "snd (os_path_exists os p w)"
  have fs1: "filesystem ?w1 = filesystem w" by (simp add: os_path_exists_def)
  have "\<exists>w'. duplicates_loop os (dirname p) (fst (splitext (basename p)))
                (snd (splitext (basename p))) 1 p ?w1
              = Some (path_join (dirname p) (fst (splitext (basename p)) @ ''_'' @ str_nat k
                        @ snd (splitext (basename p))), w')
            \<and> only_queries ?w1 w'"
    using assms by (intro duplicates_loop_run) (simp_all add: fs1 probe_def)
  then obtain w' where w': "duplicates_loop os (dirname p) (fst (splitext (basename p)))
                (snd (splitext (basename p))) 1 p ?w1 = Some (probe p k, w')" "only_queries ?w1 w'"
    unfolding probe_def by blast
  from only_queries_exists w'(2) have "only_queries w w'" by (rule only_queries_trans)
  with w'(1) handle_duplicates_present[OF assms(1)] show ?thesis by simp
qed

lemma handle_duplicates_returns:
  assumes "finite {q. path_exists os (filesystem w) q}"
  shows "\<exists>r w'. handle_duplicates os p w = Some (r, w') \<and> only_queries w w'
            \<and> \<not> path_exists os (filesystem w) r"
proof (cases "path_exists os (filesystem w) p")
  case False
  from handle_duplicates_absent[OF False] only_queries_exists[of w os p] False
  show ?thesis by blast
next
  case True
  have inj: "\<And>j k. probe p j = probe p k \<Longrightarrow> j = k" by (rule probe_inj)
  from free_candidate[OF assms inj, where c = 1]
  obtain k where k: "1 \<le> k" "\<not> path_exists os (filesystem w) (probe p k)"
    "\<forall>j. 1 \<le> j \<and> j < k \<longrightarrow> path_exists os (filesystem w) (probe p j)" by blast
  from handle_duplicates_probe[OF True k] k(2) show ?thesis by blast
qed

text \<open>
  Claim C3. \<^verbatim>\<open>handle_duplicates\<close> returns the candidate path unchanged when it does
  not exist. Otherwise it splits the path into directory, stem and extension and probes
  \<^verbatim>\<open>stem_1.ext\<close>, \<^verbatim>\<open>stem_2.ext\<close>, and so on, from the counter 1: when the probe of
  \<open>k\<close> is the first that does not exist, it is the path returned. On a finite file
  system the call does return, and the path returned does not exist.
\<close>

theorem handle_duplicates_first_free:
  "(\<not> path_exists os (filesystem w) p \<longrightarrow>
      map_option fst (handle_duplicates os p w) = Some p)
   \<and> (path_exists os (filesystem w) p \<and> 1 \<le> k
       \<and> \<not> path_exists os (filesystem w) (probe p k)
       \<and> (\<forall>j. 1 \<le> j \<and> j < k \<longrightarrow> path_exists os (filesystem w) (probe p j)) \<longrightarrow>
      map_option fst (handle_duplicates os p w) = Some (probe p k))
   \<and> (finite {q. path_exists os (filesystem w) q} \<longrightarrow>
      (\<exists>r. map_option fst (handle_duplicates os p w) = Some r
           \<and> \<not> path_exists os (filesystem w) r))"
proof (intro conjI impI)
  assume "\<not> path_exists os (filesystem w) p"
  from handle_duplicates_absent[OF this]
  show "map_option fst (handle_duplicates os p w) = Some p" by simp
next
  assume a: "path_exists os (filesystem w) p \<and> 1 \<le> k
       \<and> \<not> path_exists os (filesystem w) (probe p k)
       \<and> (\<forall>j. 1 \<le> j \<and> j < k \<longrightarrow> path_exists os (filesystem w) (probe p j))"
  then have "\<exists>w'. handle_duplicates os p w = Some (probe p k, w') \<and> only_queries w w'"
    by (intro handle_duplicates_probe) simp_all
  then show "map_option fst (handle_duplicates os p w) = Some (probe p k)" by auto
next
  assume "finite {q. path_exists os (filesystem w) q}"
  from handle_duplicates_returns[OF this, of p]
  show "\<exists>r. map_option fst (handle_duplicates os p w) = Some r
           \<and> \<not> path_exists os (filesystem w) r" by auto
qed

theorem handle_duplicates_first_free_witness:
  "map_option fst
     (handle_duplicates simple_os ''/photos/a.jpg''
        \<lparr>filesystem = \<lparr>files = [''/photos/a.jpg'', ''/photos/a_1.jpg''], dirs = [''/photos''],
                        denied = []\<rparr>, calls = []\<rparr>)
   = Some ''/photos/a_2.jpg''
   \<and> map_option fst
     (handle_duplicates simple_os ''/photos/b.jpg''
        \<lparr>filesystem = \<lparr>files = [''/photos/a.jpg'', ''/photos/a_1.jpg''], dirs = [''/photos''],
                        denied = []\<rparr>, calls = []\<rparr>)
   = Some ''/photos/b.jpg''"
proof -
  let ?w = "\<lparr>filesystem = \<lparr>files = [''/photos/a.jpg'', ''/photos/a_1.jpg''], dirs = [''/photos''],
                        denied = []\<rparr>, calls = []\<rparr>"
  have p1: "probe ''/photos/a.jpg'' 1 = ''/photos/a_1.jpg''"
    by (simp add: probe_def path_join_def dirname_def basename_def splitext_def rfind_def
        rstrip_def isabs_def str_nat.simps digit_char_def)
  have p2: "probe ''/photos/a.jpg'' 2 = ''/photos/a_2.jpg''"
    by (simp add: probe_def path_join_def dirname_def basename_def splitext_def rfind_def
        rstrip_def isabs_def str_nat.simps digit_char_def)
  have pj: "probe ''/photos/a.jpg'' j = ''/photos/a_1.jpg''" if "1 \<le> j \<and> j < 2" for j :: nat
  proof -
    from that have "j = 1" by simp
    with p1 show ?thesis by simp
  qed
  have h: "path_exists simple_os (filesystem ?w) ''/photos/a.jpg'' \<and> (1::nat) \<le> 2
       \<and> \<not> path_exists simple_os (filesystem ?w) (probe ''/photos/a.jpg'' 2)
       \<and> (\<forall>j. 1 \<le> j \<and> j < 2 \<longrightarrow> path_exists simple_os (filesystem ?w) (probe ''/photos/a.jpg'' j))"
    using pj by (simp add: simple_os_def p2)
  have n: "\<not> path_exists simple_os (filesystem ?w) ''/photos/b.jpg''"
    by (simp add: simple_os_def)
  from handle_duplicates_first_free[of simple_os ?w "''/photos/a.jpg''" 2] h
       handle_duplicates_first_free[of simple_os ?w "''/photos/b.jpg''" 2] n
  show ?thesis by (simp only: p2) blast
qed

section \<open>Placing one file\<close>









section \<open>The batch\<close>
















end
